theory Spec2Isabelle
  imports Complex_Main
begin

section \<open>Sparse matrices in coordinate format\<close>

text \<open>
  The notebook \<^verbatim>\<open>docs/examples/preconditioner.ipynb\<close> works with a JAX \<^verbatim>\<open>BCOO\<close>
  matrix: an array \<^verbatim>\<open>data\<close> of stored values, an array \<^verbatim>\<open>indices\<close> of (row, column)
  pairs of the same length, and a \<^verbatim>\<open>shape\<close>. A position may be stored more than once;
  the represented matrix sums the duplicates. Array elements are modelled in exact
  arithmetic.
\<close>

record 'a BCOO =
  data :: "'a list"
  indices :: "(nat \<times> nat) list"
  shape :: "nat \<times> nat"

text \<open>The stored entries, each index pair with its value.\<close>

definition entries :: "'a BCOO \<Rightarrow> ((nat \<times> nat) \<times> 'a) list" where
  "entries matrix = zip (indices matrix) (data matrix)"

text \<open>The sum of the values stored in a list of entries at position \<open>(i, j)\<close>.\<close>

definition entry_sum :: "((nat \<times> nat) \<times> 'a::comm_monoid_add) list \<Rightarrow> nat \<Rightarrow> nat \<Rightarrow> 'a" where
  "entry_sum es i j = sum_list (map snd (filter (\<lambda>e. fst e = (i, j)) es))"

text \<open>The represented (dense) matrix: duplicates are summed, absent positions are 0.\<close>

definition todense :: "'a::comm_monoid_add BCOO \<Rightarrow> nat \<Rightarrow> nat \<Rightarrow> 'a" where
  "todense matrix i j = entry_sum (entries matrix) i j"

subsection \<open>Array primitives used by the notebook\<close>

text \<open>\<^verbatim>\<open>jnp.where(cond, xs, 0)\<close> on arrays of one length: elementwise selection.\<close>

definition where0 :: "bool list \<Rightarrow> 'a::zero list \<Rightarrow> 'a list" where
  "where0 cond xs = map2 (\<lambda>c x. if c then x else 0) cond xs"

text \<open>
  \<^verbatim>\<open>arr.at[idx].add(vals)\<close>: scatter-add. Every update is applied, so an index that
  occurs several times accumulates; an index outside the array is dropped, which is
  JAX's default for scatter updates.
\<close>

fun at_add :: "'a::plus list \<Rightarrow> nat list \<Rightarrow> 'a list \<Rightarrow> 'a list" where
  "at_add arr (i # idx) (v # vals) =
     at_add (if i < length arr then arr[i := arr ! i + v] else arr) idx vals"
| "at_add arr _ _ = arr"

subsection \<open>\<^verbatim>\<open>get_diagonal\<close>\<close>

text \<open>
  \<^verbatim>\<open>
  def get_diagonal(matrix):
      is_diag = matrix.indices[:, 0] == matrix.indices[:, 1]
      diag_values = jnp.where(is_diag, matrix.data, 0)
      diag = jnp.zeros(matrix.shape[0], dtype=matrix.data.dtype)
      diag = diag.at[matrix.indices[:, 0]].add(diag_values)
      return diag
  \<close>
\<close>

definition get_diagonal :: "'a::comm_monoid_add BCOO \<Rightarrow> 'a list" where
  "get_diagonal matrix =
     (let is_diag = map (\<lambda>ix. fst ix = snd ix) (indices matrix);
          diag_values = where0 is_diag (data matrix);
          diag = replicate (fst (shape matrix)) 0
      in at_add diag (map fst (indices matrix)) diag_values)"

text \<open>The matrix with its stored off-diagonal entries removed.\<close>

definition diagonal_part :: "'a BCOO \<Rightarrow> 'a BCOO" where
  "diagonal_part matrix =
     \<lparr>data = map snd (filter (\<lambda>e. fst (fst e) = snd (fst e)) (entries matrix)),
      indices = map fst (filter (\<lambda>e. fst (fst e) = snd (fst e)) (entries matrix)),
      shape = shape matrix\<rparr>"

section \<open>The Poisson matrix\<close>

subsection \<open>scipy sparse matrices\<close>

text \<open>
  \<^verbatim>\<open>poisson\<close> builds its matrix with \<^verbatim>\<open>scipy.sparse\<close>. A scipy sparse matrix is modelled
  by its shape and the list of its stored entries; the storage formats (DIA, CSR, BSR, COO)
  lay the same entries out differently. The library functions below follow scipy's
  documented behaviour, with \<^verbatim>\<open>ValueError\<close> where scipy raises it.
\<close>

datatype py_error = ValueError

record spmatrix =
  spshape :: "nat \<times> nat"
  stored :: "((nat \<times> nat) \<times> real) list"

text \<open>
  The entries of one diagonal of \<^verbatim>\<open>diags\<close>, a scalar \<open>v\<close> broadcast along the diagonal with
  offset \<open>k\<close>: the positions \<open>(i, i + k)\<close> inside the shape. Converting from the diagonal
  format drops zero values.
\<close>

definition diagonal_entries :: "nat \<times> nat \<Rightarrow> real \<Rightarrow> int \<Rightarrow> ((nat \<times> nat) \<times> real) list" where
  "diagonal_entries shp v k =
     (if v = 0 then []
      else map (\<lambda>i. ((i, nat (int i + k)), v))
             (filter (\<lambda>i. 0 \<le> int i + k \<and> int i + k < int (snd shp)) [0..<fst shp]))"

text \<open>
  \<^verbatim>\<open>diags(diagonals, offsets, shape=shp)\<close> with scalar diagonals. scipy raises
  \<^verbatim>\<open>ValueError\<close> when the numbers of diagonals and offsets differ and when an offset
  lies outside the shape (\<^verbatim>\<open>min(m + offset, n - offset) < 0\<close>).
\<close>

definition diags :: "real list \<Rightarrow> int list \<Rightarrow> nat \<times> nat \<Rightarrow> py_error + spmatrix" where
  "diags diagonals offsets shp =
     (if length diagonals \<noteq> length offsets then Inl ValueError
      else if list_ex (\<lambda>k. min (int (fst shp) + k) (int (snd shp) - k) < 0) offsets
      then Inl ValueError
      else Inr \<lparr>spshape = shp,
                stored = concat (map2 (diagonal_entries shp) diagonals offsets)\<rparr>)"

text \<open>\<^verbatim>\<open>eye(k)\<close>: the \<open>k\<close>-by-\<open>k\<close> identity.\<close>

definition eye :: "nat \<Rightarrow> spmatrix" where
  "eye k = \<lparr>spshape = (k, k), stored = map (\<lambda>i. ((i, i), 1)) [0..<k]\<rparr>"

text \<open>
  \<^verbatim>\<open>kron(A, B)\<close>: every stored entry of \<open>A\<close> is expanded into a block, a copy of the
  entries of \<open>B\<close> scaled by it and shifted to the block's position.
\<close>

definition kron :: "spmatrix \<Rightarrow> spmatrix \<Rightarrow> spmatrix" where
  "kron A B =
     \<lparr>spshape = (fst (spshape A) * fst (spshape B), snd (spshape A) * snd (spshape B)),
      stored = concat (map (\<lambda>a. map (\<lambda>b.
                 ((fst (fst a) * fst (spshape B) + fst (fst b),
                   snd (fst a) * snd (spshape B) + snd (fst b)), snd a * snd b))
                 (stored B)) (stored A))\<rparr>"

text \<open>
  \<^verbatim>\<open>A + B\<close> on sparse matrices: \<^verbatim>\<open>ValueError\<close> on different shapes; otherwise the sum in
  canonical form, one entry for each position whose sum is not zero, in row-major order.
\<close>

definition sp_add :: "spmatrix \<Rightarrow> spmatrix \<Rightarrow> py_error + spmatrix" where
  "sp_add A B =
     (if spshape A \<noteq> spshape B then Inl ValueError
      else Inr \<lparr>spshape = spshape A,
                stored = concat (map (\<lambda>i. concat (map (\<lambda>j.
                   if entry_sum (stored A) i j + entry_sum (stored B) i j = 0 then []
                   else [((i, j), entry_sum (stored A) i j + entry_sum (stored B) i j)])
                   [0..<snd (spshape A)])) [0..<fst (spshape A)])\<rparr>)"

text \<open>All stored positions lie inside the shape.\<close>

definition in_bounds :: "nat \<times> nat \<Rightarrow> ((nat \<times> nat) \<times> 'a) list \<Rightarrow> bool" where
  "in_bounds shp es = list_all (\<lambda>e. fst (fst e) < fst shp \<and> snd (fst e) < snd shp) es"

text \<open>\<^verbatim>\<open>js.BCOO.from_scipy_sparse\<close>: the entries in coordinate format, unchanged.\<close>

definition from_scipy_sparse :: "spmatrix \<Rightarrow> real BCOO" where
  "from_scipy_sparse mat =
     \<lparr>data = map snd (stored mat), indices = map fst (stored mat), shape = spshape mat\<rparr>"

subsection \<open>\<^verbatim>\<open>poisson\<close>\<close>

text \<open>
  \<^verbatim>\<open>
  def poisson(n, m):
      lap_1d_n = diags([-1, 2, -1], [-1, 0, 1], shape=(n, n), format="csr")
      lap_1d_m = diags([-1, 2, -1], [-1, 0, 1], shape=(m, m), format="csr")
      lap_2d = kron(eye(m, format="csr"), lap_1d_n) + kron(lap_1d_m, eye(n, format="csr"))
      return js.BCOO.from_scipy_sparse(lap_2d)
  \<close>
\<close>

definition poisson :: "nat \<Rightarrow> nat \<Rightarrow> py_error + real BCOO" where
  "poisson n m =
     (case diags [- 1, 2, - 1] [- 1, 0, 1] (n, n) of
        Inl e \<Rightarrow> Inl e
      | Inr lap_1d_n \<Rightarrow>
     (case diags [- 1, 2, - 1] [- 1, 0, 1] (m, m) of
        Inl e \<Rightarrow> Inl e
      | Inr lap_1d_m \<Rightarrow>
     (case sp_add (kron (eye m) lap_1d_n) (kron lap_1d_m (eye n)) of
        Inl e \<Rightarrow> Inl e
      | Inr lap_2d \<Rightarrow> Inr (from_scipy_sparse lap_2d))))"

text \<open>The value of \<^verbatim>\<open>diags([-1, 2, -1], [-1, 0, 1], shape=(k, k))\<close> for positive \<open>k\<close>.\<close>

definition lap_1d :: "nat \<Rightarrow> spmatrix" where
  "lap_1d k =
     \<lparr>spshape = (k, k),
      stored = diagonal_entries (k, k) (- 1) (- 1) @ diagonal_entries (k, k) 2 0 @
               diagonal_entries (k, k) (- 1) 1\<rparr>"

subsection \<open>The matrices the specification names\<close>

text \<open>
  \<open>T\<^sub>k\<close>, the \<open>k\<close>-by-\<open>k\<close> tridiagonal matrix with 2 on the main diagonal and \<open>-1\<close> on the
  first sub- and super-diagonals, and the \<open>k\<close>-by-\<open>k\<close> identity \<open>I\<^sub>k\<close>.
\<close>

definition tridiag :: "nat \<Rightarrow> nat \<Rightarrow> nat \<Rightarrow> real" where
  "tridiag k i j =
     (if i < k \<and> j < k then (if i = j then 2 else if i = Suc j \<or> j = Suc i then - 1 else 0)
      else 0)"

definition identity_matrix :: "nat \<Rightarrow> nat \<Rightarrow> nat \<Rightarrow> real" where
  "identity_matrix k i j = (if i < k \<and> j < k \<and> i = j then 1 else 0)"

text \<open>The Kronecker product of dense matrices, the second of shape \<open>(p, q)\<close>.\<close>

definition kron_dense ::
  "(nat \<Rightarrow> nat \<Rightarrow> real) \<Rightarrow> nat \<times> nat \<Rightarrow> (nat \<Rightarrow> nat \<Rightarrow> real) \<Rightarrow> nat \<Rightarrow> nat \<Rightarrow> real" where
  "kron_dense A pq B i j = A (i div fst pq) (j div snd pq) * B (i mod fst pq) (j mod snd pq)"

text \<open>
  The five-point Laplacian on a grid with \<open>n\<close> columns and \<open>m\<close> rows, between the grid
  points \<open>(x, y)\<close> and \<open>(x', y')\<close>: 4 on a point itself, \<open>-1\<close> between neighbours.
\<close>

definition laplacian_stencil :: "nat \<times> nat \<Rightarrow> nat \<times> nat \<Rightarrow> real" where
  "laplacian_stencil p p' =
     (if p = p' then 4
      else if (snd p = snd p' \<and> (fst p = Suc (fst p') \<or> fst p' = Suc (fst p))) \<or>
              (fst p = fst p' \<and> (snd p = Suc (snd p') \<or> snd p' = Suc (snd p)))
      then - 1 else 0)"

section \<open>The operator and the preconditioner of the notebook\<close>

subsection \<open>Vectors\<close>

text \<open>A vector is a fixed-length sequence of numbers, in exact arithmetic.\<close>

type_synonym vector = "real list"

definition zeros :: "nat \<Rightarrow> vector" where
  "zeros n = replicate n 0"

definition vadd :: "vector \<Rightarrow> vector \<Rightarrow> vector" where
  "vadd u v = map2 (+) u v"

definition vsub :: "vector \<Rightarrow> vector \<Rightarrow> vector" where
  "vsub u v = map2 (-) u v"

definition vscale :: "real \<Rightarrow> vector \<Rightarrow> vector" where
  "vscale a v = map ((*) a) v"

definition dot :: "vector \<Rightarrow> vector \<Rightarrow> real" where
  "dot u v = sum_list (map2 (*) u v)"

definition vnorm :: "vector \<Rightarrow> real" where
  "vnorm v = sqrt (dot v v)"

subsection \<open>\<^verbatim>\<open>SparseMatrixLinearOperator\<close>\<close>

text \<open>
  \<^verbatim>\<open>matrix @ vector\<close> for a \<^verbatim>\<open>BCOO\<close> matrix and a vector of the matrix's column dimension:
  every stored entry \<open>((r, c), v)\<close> adds \<open>v * vector[c]\<close> to row \<open>r\<close>. Entries whose index
  lies outside the shape are padding and contribute nothing.
\<close>

definition bcoo_matvec :: "real BCOO \<Rightarrow> vector \<Rightarrow> vector" where
  "bcoo_matvec matrix vector =
     at_add (zeros (fst (shape matrix))) (map fst (indices matrix))
       (map2 (\<lambda>ix v. if snd ix < length vector then v * vector ! snd ix else 0)
          (indices matrix) (data matrix))"

text \<open>
  \<^verbatim>\<open>
  class SparseMatrixLinearOperator(lx.MatrixLinearOperator):
      def mv(self, vector):
          return self.matrix @ vector

  @lx.is_positive_semidefinite.register(SparseMatrixLinearOperator)
  def _(op):
      return True
  \<close>
\<close>

record SparseMatrixLinearOperator =
  matrix :: "real BCOO"

definition mv :: "SparseMatrixLinearOperator \<Rightarrow> vector \<Rightarrow> vector" where
  "mv self vector = bcoo_matvec (matrix self) vector"

definition is_positive_semidefinite :: "SparseMatrixLinearOperator \<Rightarrow> bool" where
  "is_positive_semidefinite op = True"

subsection \<open>The Jacobi preconditioner\<close>

text \<open>
  \<^verbatim>\<open>preconditioner = lx.FunctionLinearOperator(lambda x: x / jacobi, in_structure, ...)\<close>
  with \<^verbatim>\<open>jacobi = get_diagonal(A)\<close>: elementwise division of two arrays of one length,
  with no test of the divisor. Dividing by zero gives no number (IEEE arithmetic yields
  an infinity or a NaN there): the quotient is \<open>None\<close> at such a coordinate.
\<close>

definition true_divide :: "real \<Rightarrow> real \<Rightarrow> real option" where
  "true_divide a d = (if d = 0 then None else Some (a / d))"

definition preconditioner_fn :: "vector \<Rightarrow> vector \<Rightarrow> real option list" where
  "preconditioner_fn jacobi x = map2 true_divide x jacobi"

subsection \<open>The recorded outputs\<close>




section \<open>The preconditioned GMRES solver\<close>

text \<open>
  The notebook calls \<^verbatim>\<open>lx.GMRES\<close> and \<^verbatim>\<open>lx.linear_solve\<close>; their code is not among the
  sources. Every definition of this section is modelled from the specification's
  description of the solver core (its sections 3, 4 and 7), in exact real arithmetic.
\<close>

subsection \<open>Linear operators and errors\<close>

text \<open>
  Modelled from the spec: the algebraic tags a linear operator declares (the library's
  tag objects are missing). They are advisory only.
\<close>

datatype tag = symmetric_tag | positive_semidefinite_tag

text \<open>
  Modelled from the spec: the \<^verbatim>\<open>LinearOperator\<close> abstraction (missing from the sources):
  a mapping on vectors, a declared shape \<open>(rows, cols)\<close> and a set of tags.
\<close>

record LinearOperator =
  apply_fn :: "vector \<Rightarrow> vector"
  op_shape :: "nat \<times> nat"
  tags :: "tag list"

text \<open>
  Modelled from the spec: the error taxonomy of its section 7 (the library's exceptions
  are missing). Both errors are fatal; non-convergence is not an error.
\<close>

datatype error = DimensionMismatch | InvalidConfiguration

text \<open>
  Modelled from the spec: \<^verbatim>\<open>apply(v)\<close> of a \<^verbatim>\<open>LinearOperator\<close> (missing from the sources),
  total on vectors of the declared input dimension and failing with
  \<^verbatim>\<open>DimensionMismatch\<close> on any other vector.
\<close>

definition op_apply :: "LinearOperator \<Rightarrow> vector \<Rightarrow> error + vector" where
  "op_apply A v =
     (if length v = snd (op_shape A) then Inr (apply_fn A v) else Inl DimensionMismatch)"

text \<open>
  Modelled from the spec: linearity of the mapping of an operator of dimension \<open>N\<close> (the
  library's operators are missing from the sources): it keeps the dimension, and it is
  additive and homogeneous on the vectors of that dimension.
\<close>

definition linear_on :: "nat \<Rightarrow> (vector \<Rightarrow> vector) \<Rightarrow> bool" where
  "linear_on N f \<longleftrightarrow>
     (\<forall>v. length v = N \<longrightarrow> length (f v) = N) \<and>
     (\<forall>u v. length u = N \<and> length v = N \<longrightarrow> f (vadd u v) = vadd (f u) (f v)) \<and>
     (\<forall>a v. length v = N \<longrightarrow> f (vscale a v) = vscale a (f v))"

text \<open>
  Modelled from the spec: a linear operator backed by a dense matrix, one of the
  implementations the spec leaves to callers (the library's \<^verbatim>\<open>MatrixLinearOperator\<close> is
  missing from the sources). The matrix is the list of its rows.
\<close>

definition matvec :: "real list list \<Rightarrow> vector \<Rightarrow> vector" where
  "matvec rows v = map (\<lambda>row. dot row v) rows"

definition MatrixLinearOperator :: "real list list \<Rightarrow> tag list \<Rightarrow> LinearOperator" where
  "MatrixLinearOperator rows tgs =
     \<lparr>apply_fn = matvec rows,
      op_shape = (length rows, case rows of [] \<Rightarrow> 0 | row # _ \<Rightarrow> length row),
      tags = tgs\<rparr>"

text \<open>
  Modelled from the spec: a symmetric positive-definite dense matrix, the operators of
  the spec's first testable property (no such operator is among the sources): a square
  matrix equal to its transpose whose quadratic form is positive on every non-zero
  vector.
\<close>

definition symmetric_positive_definite :: "real list list \<Rightarrow> bool" where
  "symmetric_positive_definite rows \<longleftrightarrow>
     list_all (\<lambda>row. length row = length rows) rows \<and>
     (\<forall>i<length rows. \<forall>j<length rows. rows ! i ! j = rows ! j ! i) \<and>
     (\<forall>x. length x = length rows \<and> x \<noteq> zeros (length rows) \<longrightarrow>
        0 < dot x (matvec rows x))"

text \<open>
  Modelled from the spec: the declared side of a preconditioner (missing from the
  sources).
\<close>

datatype side = Left | Right

text \<open>
  Modelled from the spec: the solver's configuration (the class \<^verbatim>\<open>GMRES\<close> is missing from
  the sources): the two tolerances and the iteration budget.
\<close>

record GMRESSolver =
  atol :: real
  rtol :: real
  max_steps :: nat

text \<open>
  Modelled from the spec: construction of the solver (missing from the sources), which
  fails with \<^verbatim>\<open>InvalidConfiguration\<close> on a non-positive \<^verbatim>\<open>max_steps\<close> or a negative
  tolerance.
\<close>

definition GMRES :: "real \<Rightarrow> real \<Rightarrow> int \<Rightarrow> error + GMRESSolver" where
  "GMRES a r m =
     (if m \<le> 0 \<or> a < 0 \<or> r < 0 then Inl InvalidConfiguration
      else Inr \<lparr>atol = a, rtol = r, max_steps = nat m\<rparr>)"

text \<open>
  Modelled from the spec: the terminal states of the solver's state machine, which are the
  status codes of a result (the library's result codes are missing).
\<close>

datatype status = CONVERGED | MAX_STEPS_REACHED | BREAKDOWN

text \<open>
  Modelled from the spec: \<^verbatim>\<open>SolveResult\<close> (the library's solution object is missing): the
  solution vector, the convergence flag, the number of iterations used, the final
  residual norm and the status code.
\<close>

record SolveResult =
  solution :: vector
  converged :: bool
  iterations :: nat
  residual_norm :: real
  status :: status

subsection \<open>The Arnoldi process with Givens rotations\<close>

text \<open>
  Modelled from the spec: the working set of one solve (missing from the sources): the
  orthonormal Krylov basis \<open>q\<^sub>1, q\<^sub>2, \<dots>\<close>, the recorded Hessenberg coefficients (one column
  for each step), the Givens rotations, the upper-triangular factor they produce (one
  column for each step), the rotated right-hand side of the least-squares problem, and
  whether the last step broke down.
\<close>

record KrylovState =
  basis :: "vector list"
  hessenberg :: "real list list"
  rotations :: "(real \<times> real) list"
  triangular :: "real list list"
  rhs :: "real list"
  breakdown :: bool

text \<open>
  Modelled from the spec: modified Gram-Schmidt (missing from the sources). The vector
  \<open>w\<close> is orthogonalized against the basis vectors in turn; the coefficients are
  returned with what remains of \<open>w\<close>.
\<close>

fun orthogonalize :: "vector \<Rightarrow> vector list \<Rightarrow> real list \<times> vector" where
  "orthogonalize w [] = ([], w)"
| "orthogonalize w (q # qs) =
     (let h = dot w q;
          (hs, w') = orthogonalize (vsub w (vscale h q)) qs
      in (h # hs, w'))"

text \<open>
  Modelled from the spec: the Givens rotation (missing from the sources) that maps the
  pair \<open>(a, b)\<close> to \<open>(sqrt (a\<^sup>2 + b\<^sup>2), 0)\<close>, as its cosine and sine. For \<open>a = b = 0\<close>, where
  the spec fixes nothing, the rotation exchanges the two coordinates, which keeps the
  residual norm of the least-squares problem.
\<close>

definition givens :: "real \<Rightarrow> real \<Rightarrow> real \<times> real" where
  "givens a b =
     (let d = sqrt (a\<^sup>2 + b\<^sup>2) in if d = 0 then (0, 1) else (a / d, b / d))"

text \<open>
  Modelled from the spec: applying the rotations of the earlier steps to a new Hessenberg
  column (missing from the sources); the \<open>i\<close>-th rotation acts on the entries \<open>i\<close> and
  \<open>i + 1\<close>.
\<close>

fun apply_rotations :: "(real \<times> real) list \<Rightarrow> real list \<Rightarrow> real list" where
  "apply_rotations (cs # rots) (a # b # col) =
     (fst cs * a + snd cs * b) # apply_rotations rots ((fst cs * b - snd cs * a) # col)"
| "apply_rotations rots col = col"

text \<open>
  Modelled from the spec: one step of the ITERATING state (missing from the sources).
  The operator is applied to the last basis vector and the result orthogonalized against
  the basis; its norm is the subdiagonal Hessenberg coefficient, and the step breaks down
  when that norm is zero, else the normalized vector joins the basis. The new Hessenberg
  column is rotated by the earlier rotations, a new rotation removes its subdiagonal
  entry, and the same rotation updates the right-hand side, whose last entry has the
  residual norm as its absolute value.
\<close>

definition arnoldi_step :: "(vector \<Rightarrow> vector) \<Rightarrow> KrylovState \<Rightarrow> KrylovState" where
  "arnoldi_step Aop st =
     (let (hs, w) = orthogonalize (Aop (last (basis st))) (basis st);
          hlast = vnorm w;
          col = apply_rotations (rotations st) (hs @ [hlast]);
          a = last (butlast col);
          (c, s) = givens a hlast
      in \<lparr>basis = (if hlast = 0 then basis st else basis st @ [vscale (1 / hlast) w]),
          hessenberg = hessenberg st @ [hs @ [hlast]],
          rotations = rotations st @ [(c, s)],
          triangular = triangular st @ [butlast (butlast col) @ [c * a + s * hlast]],
          rhs = butlast (rhs st) @ [c * last (rhs st), - s * last (rhs st)],
          breakdown = (hlast = 0)\<rparr>)"

text \<open>
  Modelled from the spec: back-substitution against the triangular factor (missing from
  the sources), given its columns from the last to the first. A zero pivot, which only a
  rank-deficient breakdown produces, gives the coefficient 0.
\<close>

fun back_substitute_rev :: "real list list \<Rightarrow> real list \<Rightarrow> real list" where
  "back_substitute_rev [] z = []"
| "back_substitute_rev (col # cols) z =
     (let y = (if last col = 0 then 0 else last z / last col)
      in back_substitute_rev cols (map2 (\<lambda>zi ci. zi - y * ci) (butlast z) (butlast col)) @ [y])"

text \<open>
  Modelled from the spec: the coefficients of the least-squares solution (missing from
  the sources), from the columns of the triangular factor and the rotated right-hand
  side.
\<close>

definition back_substitute :: "real list list \<Rightarrow> real list \<Rightarrow> real list" where
  "back_substitute cols z = back_substitute_rev (rev cols) z"

text \<open>
  Modelled from the spec: the linear combination of basis vectors with the accumulated
  coefficients (missing from the sources), in dimension \<open>N\<close>.
\<close>

fun combine :: "nat \<Rightarrow> real list \<Rightarrow> vector list \<Rightarrow> vector" where
  "combine N (y # ys) (q # qs) = vadd (vscale y q) (combine N ys qs)"
| "combine N ys qs = zeros N"

subsection \<open>The state machine\<close>

text \<open>
  Modelled from the spec: the operator the Arnoldi process applies (missing from the
  sources): \<open>M A\<close> under left preconditioning, \<open>A M\<close> under right preconditioning, \<open>A\<close>
  without preconditioner.
\<close>

definition effective_operator ::
  "LinearOperator \<Rightarrow> (side \<times> LinearOperator) option \<Rightarrow> vector \<Rightarrow> vector" where
  "effective_operator A pre v =
     (case pre of
        None \<Rightarrow> apply_fn A v
      | Some (Left, M) \<Rightarrow> apply_fn M (apply_fn A v)
      | Some (Right, M) \<Rightarrow> apply_fn A (apply_fn M v))"

text \<open>
  Modelled from the spec: the ITERATING state (missing from the sources), with the number
  of steps still allowed. After each step: CONVERGED when the residual norm is within
  the tolerance, else MAX_STEPS_REACHED when the budget is used up, else BREAKDOWN when
  the step broke down, else the next step.
\<close>

fun gmres_loop ::
  "nat \<Rightarrow> (vector \<Rightarrow> vector) \<Rightarrow> real \<Rightarrow> KrylovState \<Rightarrow> KrylovState \<times> status" where
  "gmres_loop 0 Aop tol st = (st, MAX_STEPS_REACHED)"
| "gmres_loop (Suc n) Aop tol st =
     (let st' = arnoldi_step Aop st
      in if \<bar>last (rhs st')\<bar> \<le> tol then (st', CONVERGED)
         else if n = 0 then (st', MAX_STEPS_REACHED)
         else if breakdown st' then (st', BREAKDOWN)
         else gmres_loop n Aop tol st')"

text \<open>
  Modelled from the spec: the solution of a terminal state (missing from the sources):
  the coefficients are back-substituted against the basis, mapped back by a right
  preconditioner, and added to the initial guess.
\<close>

definition reconstruct ::
  "nat \<Rightarrow> vector \<Rightarrow> (side \<times> LinearOperator) option \<Rightarrow> KrylovState \<Rightarrow> vector" where
  "reconstruct N x0 pre st =
     (let y = back_substitute (triangular st) (butlast (rhs st));
          dx = combine N y (basis st)
      in vadd x0 (case pre of Some (Right, M) \<Rightarrow> apply_fn M dx | _ \<Rightarrow> dx))"

text \<open>
  Modelled from the spec: the initial residual of the INIT state (missing from the
  sources), \<open>b - A x\<^sub>0\<close>, replaced by \<open>M (b - A x\<^sub>0)\<close> when a left preconditioner \<open>M\<close> is
  given.
\<close>

definition initial_residual ::
  "LinearOperator \<Rightarrow> vector \<Rightarrow> vector \<Rightarrow> (side \<times> LinearOperator) option \<Rightarrow> vector" where
  "initial_residual A b x0 pre =
     (let r0 = vsub b (apply_fn A x0)
      in case pre of Some (Left, M) \<Rightarrow> apply_fn M r0 | _ \<Rightarrow> r0)"

text \<open>
  Modelled from the spec: the dimension checks of a solve (missing from the sources):
  the operator is square, and the right-hand side, a supplied initial guess and a
  supplied preconditioner have its dimension.
\<close>

definition conforming ::
  "LinearOperator \<Rightarrow> vector \<Rightarrow> vector option \<Rightarrow> (side \<times> LinearOperator) option \<Rightarrow> bool" where
  "conforming A b x0 pre \<longleftrightarrow>
     fst (op_shape A) = snd (op_shape A) \<and> length b = snd (op_shape A) \<and>
     (case x0 of None \<Rightarrow> True | Some x \<Rightarrow> length x = snd (op_shape A)) \<and>
     (case pre of None \<Rightarrow> True | Some (sd, M) \<Rightarrow> op_shape M = op_shape A)"

text \<open>
  Modelled from the spec: the solve in best-effort mode (\<^verbatim>\<open>lx.linear_solve\<close> with
  \<^verbatim>\<open>throw=False\<close> is missing from the sources). It returns the number of iterations it
  performed together with its outcome, an error or a result. Malformed operands fail at
  once with \<^verbatim>\<open>DimensionMismatch\<close>. INIT computes the initial residual, its norm \<open>beta\<close> and
  the tolerance \<open>atol + rtol * ||b||\<close>, and ends in CONVERGED with the initial guess when
  \<open>beta\<close> is within the tolerance; otherwise the iteration starts from the normalized
  residual and the result is built from its terminal state.
\<close>

definition solve ::
  "GMRESSolver \<Rightarrow> LinearOperator \<Rightarrow> vector \<Rightarrow> vector option \<Rightarrow>
   (side \<times> LinearOperator) option \<Rightarrow> nat \<times> (error + SolveResult)" where
  "solve solver A b x0_opt pre =
     (if \<not> conforming A b x0_opt pre then (0, Inl DimensionMismatch)
      else
        let N = snd (op_shape A);
            x0 = (case x0_opt of None \<Rightarrow> zeros N | Some x \<Rightarrow> x);
            r0 = initial_residual A b x0 pre;
            beta = vnorm r0;
            tol = atol solver + rtol solver * vnorm b
        in if beta \<le> tol
           then (0, Inr \<lparr>solution = x0, converged = True, iterations = 0,
                         residual_norm = beta, status = CONVERGED\<rparr>)
           else
             let st0 = \<lparr>basis = [vscale (1 / beta) r0], hessenberg = [], rotations = [],
                        triangular = [], rhs = [beta], breakdown = False\<rparr>;
                 (st, stat) = gmres_loop (max_steps solver) (effective_operator A pre) tol st0
             in (length (rotations st),
                 Inr \<lparr>solution = reconstruct N x0 pre st, converged = (stat = CONVERGED),
                      iterations = length (rotations st),
                      residual_norm = \<bar>last (rhs st)\<bar>, status = stat\<rparr>))"

subsection \<open>The notebook's operators as linear operators\<close>



section \<open>Notions used in the proofs about the solver\<close>

text \<open>
  The shape of a state of the Arnoldi process in dimension \<open>N\<close> after \<open>k\<close> steps: \<open>k\<close>
  rotations, \<open>k\<close> columns of Hessenberg coefficients (the \<open>j\<close>-th of length \<open>j + 2\<close>, counting
  from 0) and of the triangular factor (the \<open>j\<close>-th of length \<open>j + 1\<close>), a right-hand side of
  length \<open>k + 1\<close>, and a basis of \<open>k + 1\<close> vectors of length \<open>N\<close>, or of \<open>k\<close> vectors when the
  last step broke down.
\<close>

definition state_ok :: "nat \<Rightarrow> KrylovState \<Rightarrow> bool" where
  "state_ok N st \<longleftrightarrow>
     basis st \<noteq> [] \<and> list_all (\<lambda>q. length q = N) (basis st) \<and>
     length (rotations st) = length (triangular st) \<and>
     length (hessenberg st) = length (triangular st) \<and>
     length (rhs st) = Suc (length (triangular st)) \<and>
     length (basis st) =
       (if breakdown st then length (triangular st) else Suc (length (triangular st))) \<and>
     (\<forall>j<length (triangular st).
        length (triangular st ! j) = Suc j \<and> length (hessenberg st ! j) = Suc (Suc j))"

text \<open>The shape of a triangular factor whose columns are listed from the last to the first.\<close>

fun triangular_rev :: "real list list \<Rightarrow> bool" where
  "triangular_rev [] = True"
| "triangular_rev (col # cols) = (length col = Suc (length cols) \<and> triangular_rev cols)"


text \<open>A list of vectors is orthonormal: unit vectors, pairwise orthogonal.\<close>

fun orthonormal :: "vector list \<Rightarrow> bool" where
  "orthonormal [] = True"
| "orthonormal (q # qs) = (dot q q = 1 \<and> list_all (\<lambda>p. dot q p = 0) qs \<and> orthonormal qs)"

text \<open>
  The invariant of the Arnoldi process with Givens rotations, for the operator \<open>F\<close> in
  dimension \<open>N\<close> and the initial residual \<open>r0\<close>. Besides the orthonormal basis it speaks of
  the rotated basis: the vectors \<open>us\<close>, one for each step made, and a pending unit vector
  \<open>pend\<close>. The triangular factor expresses the images of the basis vectors in the rotated
  basis, the right-hand side expresses the initial residual, and the rotations turn
  coefficients over the basis into coefficients over the rotated basis.
\<close>

definition arnoldi_inv ::
  "nat \<Rightarrow> (vector \<Rightarrow> vector) \<Rightarrow> vector \<Rightarrow> KrylovState \<Rightarrow> vector list \<Rightarrow> vector \<Rightarrow> bool" where
  "arnoldi_inv N F r0 st us pend \<longleftrightarrow>
     state_ok N st \<and> \<not> breakdown st \<and> orthonormal (basis st) \<and>
     list_all (\<lambda>col. last col \<noteq> 0) (triangular st) \<and>
     length us = length (triangular st) \<and> list_all (\<lambda>u. length u = N) us \<and>
     length pend = N \<and> dot pend pend = 1 \<and>
     (\<forall>v. length v = N \<and> list_all (\<lambda>q. dot v q = 0) (basis st) \<longrightarrow> dot v pend = 0) \<and>
     r0 = combine N (rhs st) (us @ [pend]) \<and>
     map F (butlast (basis st)) = map (\<lambda>col. combine N col us) (triangular st) \<and>
     (\<forall>h. length h = length (basis st) \<longrightarrow>
        combine N h (basis st) =
          combine N (apply_rotations (rotations st) h) (us @ [pend]))"

section \<open>Properties of \<^verbatim>\<open>get_diagonal\<close>\<close>

lemma length_at_add: "length (at_add arr idx vals) = length arr"
  by (induction arr idx vals rule: at_add.induct) auto

lemma nth_at_add:
  "i < length arr \<Longrightarrow>
   at_add arr idx vals ! i =
     arr ! i + sum_list (map snd (filter (\<lambda>e. fst e = i) (zip idx vals)))"
proof (induction arr idx vals rule: at_add.induct)
  case (1 arr k idx v vals)
  then show ?case
    by (auto simp: nth_list_update add.assoc)
qed simp_all


lemma diag_updates_sum:
  "sum_list (map snd (filter (\<lambda>e. fst e = i)
      (zip (map fst idx) (where0 (map (\<lambda>ix. fst ix = snd ix) idx) dat)))) =
   entry_sum (zip idx dat) i i"
proof (induction idx arbitrary: dat)
  case Nil
  then show ?case by (simp add: entry_sum_def where0_def)
next
  case (Cons ix idx)
  show ?case
  proof (cases dat)
    case Nil
    then show ?thesis by (simp add: entry_sum_def where0_def)
  next
    case (Cons v vals)
    have "sum_list (map snd (filter (\<lambda>e. fst e = i)
            (zip (map fst idx) (where0 (map (\<lambda>ix. fst ix = snd ix) idx) vals)))) =
          entry_sum (zip idx vals) i i"
      by (rule Cons.IH)
    with Cons show ?thesis
      by (cases ix) (auto simp: entry_sum_def where0_def)
  qed
qed

lemma length_get_diagonal: "length (get_diagonal mat) = fst (shape mat)"
  by (simp add: get_diagonal_def Let_def length_at_add)

lemma nth_get_diagonal:
  "i < fst (shape mat) \<Longrightarrow> get_diagonal mat ! i = todense mat i i"
  by (simp add: get_diagonal_def Let_def nth_at_add diag_updates_sum todense_def entries_def)

lemma entries_diagonal_part:
  "entries (diagonal_part mat) = filter (\<lambda>e. fst (fst e) = snd (fst e)) (entries mat)"
  by (simp add: entries_def diagonal_part_def zip_map_fst_snd)

lemma todense_diagonal_part: "todense (diagonal_part mat) i i = todense mat i i"
proof -
  have "filter (\<lambda>e. fst e = (i, i)) (filter (\<lambda>e. fst (fst e) = snd (fst e)) es) =
        filter (\<lambda>e. fst e = (i, i)) es" for es :: "((nat \<times> nat) \<times> 'a) list"
    by (induction es) auto
  then show ?thesis
    by (simp add: todense_def entry_sum_def entries_diagonal_part)
qed

lemma get_diagonal_diagonal_part: "get_diagonal (diagonal_part mat) = get_diagonal mat"
proof (rule nth_equalityI)
  show "length (get_diagonal (diagonal_part mat)) = length (get_diagonal mat)"
    by (simp add: length_get_diagonal diagonal_part_def)
next
  fix i assume "i < length (get_diagonal (diagonal_part mat))"
  then have i: "i < fst (shape mat)"
    by (simp add: length_get_diagonal diagonal_part_def)
  then have "i < fst (shape (diagonal_part mat))"
    by (simp add: diagonal_part_def)
  then show "get_diagonal (diagonal_part mat) ! i = get_diagonal mat ! i"
    using i by (simp add: nth_get_diagonal todense_diagonal_part)
qed

text \<open>
  C3. For a square matrix of shape \<open>(N, N)\<close> in coordinate format, \<^verbatim>\<open>get_diagonal\<close> returns
  a vector of length \<open>N\<close> whose \<open>i\<close>-th entry is the sum of all values stored at the index
  pair \<open>(i, i)\<close>, the diagonal of the represented matrix; the stored off-diagonal entries
  contribute nothing: removing them leaves the result unchanged.
\<close>

theorem get_diagonal_true_diagonal:
  fixes mat :: "'a::comm_monoid_add BCOO"
  assumes "shape mat = (N, N)"
  shows "length (get_diagonal mat) = N \<and>
         (\<forall>i<N. get_diagonal mat ! i =
            sum_list (map snd (filter (\<lambda>e. fst e = (i, i)) (zip (indices mat) (data mat))))) \<and>
         get_diagonal mat = get_diagonal (diagonal_part mat)"
proof -
  have "get_diagonal mat ! i =
        sum_list (map snd (filter (\<lambda>e. fst e = (i, i)) (zip (indices mat) (data mat))))"
    if "i < N" for i
    using that assms nth_get_diagonal [of i mat]
    by (simp add: todense_def entry_sum_def entries_def)
  then show ?thesis
    using assms by (simp add: length_get_diagonal get_diagonal_diagonal_part)
qed

theorem get_diagonal_true_diagonal_witness:
  "shape \<lparr>data = [5, 7, 1, 2, 3 :: int], indices = [(0, 0), (0, 1), (1, 1), (0, 0), (1, 0)],
          shape = (2, 2)\<rparr> = (2, 2) \<and>
   get_diagonal \<lparr>data = [5, 7, 1, 2, 3 :: int],
                 indices = [(0, 0), (0, 1), (1, 1), (0, 0), (1, 0)], shape = (2, 2)\<rparr> = [7, 1]"
proof -
  let ?M = "\<lparr>data = [5, 7, 1, 2, 3 :: int], indices = [(0, 0), (0, 1), (1, 1), (0, 0), (1, 0)],
             shape = (2, 2)\<rparr>"
  have s: "shape ?M = (2, 2)" by simp
  have l: "length (get_diagonal ?M) = 2"
    and n: "\<forall>i<2. get_diagonal ?M ! i =
            sum_list (map snd (filter (\<lambda>e. fst e = (i, i)) (zip (indices ?M) (data ?M))))"
    using get_diagonal_true_diagonal [OF s] by blast+
  have "get_diagonal ?M ! 0 = 7" "get_diagonal ?M ! 1 = 1"
    using n by simp_all
  with l have "get_diagonal ?M = [7, 1]"
    by (auto simp: length_Suc_conv numeral_2_eq_2)
  with s show ?thesis by simp
qed

section \<open>Properties of \<^verbatim>\<open>poisson\<close>\<close>

lemma entry_sum_Nil: "entry_sum [] i j = 0"
  by (simp add: entry_sum_def)

lemma entry_sum_Cons:
  "entry_sum (e # es) i j = (if fst e = (i, j) then snd e else 0) + entry_sum es i j"
  by (simp add: entry_sum_def)

lemma entry_sum_append: "entry_sum (es @ fs) i j = entry_sum es i j + entry_sum fs i j"
  by (simp add: entry_sum_def)

lemma entry_sum_line:
  "distinct xs \<Longrightarrow>
   entry_sum (map (\<lambda>x. ((x, f x), v)) xs) i j = (if i \<in> set xs \<and> f i = j then v else 0)"
  by (induction xs) (auto simp: entry_sum_Nil entry_sum_Cons)

lemma entry_sum_diagonal_entries:
  "entry_sum (diagonal_entries shp v k) i j =
     (if i < fst shp \<and> j < snd shp \<and> int j = int i + k then v else 0)"
proof (cases "v = 0")
  case True
  then show ?thesis by (simp add: diagonal_entries_def entry_sum_Nil)
next
  case False
  have "distinct (filter (\<lambda>i. 0 \<le> int i + k \<and> int i + k < int (snd shp)) [0..<fst shp])"
    by simp
  from entry_sum_line [OF this, of "\<lambda>i. nat (int i + k)" v i j] False
  show ?thesis
    by (auto simp: diagonal_entries_def)
qed

lemma entry_sum_eye:
  "entry_sum (stored (eye k)) i j = identity_matrix k i j"
  using entry_sum_line [of "[0..<k]" "\<lambda>i. i" 1 i j]
  by (auto simp: eye_def identity_matrix_def)

lemma diags_laplacian:
  "0 < k \<Longrightarrow> diags [- 1, 2, - 1] [- 1, 0, 1] (k, k) =
     Inr \<lparr>spshape = (k, k),
          stored = diagonal_entries (k, k) (- 1) (- 1) @ diagonal_entries (k, k) 2 0 @
                   diagonal_entries (k, k) (- 1) 1\<rparr>"
  by (simp add: diags_def)

lemma diags_laplacian_zero: "diags [- 1, 2, - 1] [- 1, 0, 1] (0, 0) = Inl ValueError"
  by (simp add: diags_def)

lemma entry_sum_laplacian_1d:
  "entry_sum (diagonal_entries (k, k) (- 1) (- 1) @ diagonal_entries (k, k) 2 0 @
              diagonal_entries (k, k) (- 1) 1) i j = tridiag k i j"
  by (auto simp: entry_sum_append entry_sum_diagonal_entries tridiag_def)

lemma block_index:
  fixes i :: nat
  assumes "ib < rb"
  shows "ia * rb + ib = i \<longleftrightarrow> ia = i div rb \<and> ib = i mod rb"
proof
  assume "ia * rb + ib = i"
  with assms show "ia = i div rb \<and> ib = i mod rb" by auto
next
  assume "ia = i div rb \<and> ib = i mod rb"
  then show "ia * rb + ib = i" by simp
qed

lemma entry_sum_block:
  fixes va :: real
  assumes "in_bounds (rb, cb) bs"
  shows "entry_sum (map (\<lambda>b. ((ia * rb + fst (fst b), ja * cb + snd (fst b)), va * snd b)) bs) i j =
         (if ia = i div rb \<and> ja = j div cb then va * entry_sum bs (i mod rb) (j mod cb) else 0)"
  using assms
proof (induction bs)
  case Nil
  then show ?case by (simp add: entry_sum_Nil)
next
  case (Cons b bs)
  obtain ib jb vb where b: "b = ((ib, jb), vb)" by (cases b) auto
  from Cons.prems b have lt: "ib < rb" "jb < cb" and rest: "in_bounds (rb, cb) bs"
    by (simp_all add: in_bounds_def)
  have "(ia * rb + ib = i \<and> ja * cb + jb = j) \<longleftrightarrow>
        (ia = i div rb \<and> ja = j div cb) \<and> (ib = i mod rb \<and> jb = j mod cb)"
    using block_index [OF lt(1), of ia i] block_index [OF lt(2), of ja j] by blast
  then show ?case
    using Cons.IH [OF rest] b
    by (simp add: entry_sum_Cons distrib_left)
qed

lemma entry_sum_kron:
  assumes "in_bounds (spshape B) (stored B)"
  shows "entry_sum (stored (kron A B)) i j =
         entry_sum (stored A) (i div fst (spshape B)) (j div snd (spshape B)) *
         entry_sum (stored B) (i mod fst (spshape B)) (j mod snd (spshape B))"
proof -
  obtain rb cb where shp: "spshape B = (rb, cb)" by (cases "spshape B") auto
  have "entry_sum (concat (map (\<lambda>a. map (\<lambda>b.
            ((fst (fst a) * rb + fst (fst b), snd (fst a) * cb + snd (fst b)), snd a * snd b))
            (stored B)) as)) i j =
        entry_sum as (i div rb) (j div cb) * entry_sum (stored B) (i mod rb) (j mod cb)" for as
  proof (induction as)
    case Nil
    then show ?case by (simp add: entry_sum_Nil)
  next
    case (Cons a as)
    obtain ia ja va where a: "a = ((ia, ja), va)" by (cases a) auto
    show ?case
      using Cons.IH assms shp a
      by (simp add: entry_sum_append entry_sum_Cons entry_sum_block distrib_right)
  qed
  then show ?thesis
    by (simp add: kron_def shp)
qed

lemma in_bounds_append: "in_bounds shp (es @ fs) \<longleftrightarrow> in_bounds shp es \<and> in_bounds shp fs"
  by (simp add: in_bounds_def)

lemma in_bounds_diagonal_entries: "in_bounds shp (diagonal_entries shp v k)"
  by (auto simp: in_bounds_def diagonal_entries_def list_all_iff)

lemma in_bounds_eye: "in_bounds (spshape (eye k)) (stored (eye k))"
  by (auto simp: in_bounds_def eye_def list_all_iff)

lemma entry_sum_row:
  "distinct js \<Longrightarrow>
   entry_sum (concat (map (\<lambda>j. if f i' j = 0 then [] else [((i', j), f i' j)]) js)) i j =
     (if i = i' \<and> j \<in> set js then f i j else 0)"
  by (induction js) (auto simp: entry_sum_Nil entry_sum_append entry_sum_Cons)

lemma entry_sum_canonical:
  "distinct is \<Longrightarrow> distinct js \<Longrightarrow>
   entry_sum (concat (map (\<lambda>i'. concat (map (\<lambda>j. if f i' j = 0 then [] else [((i', j), f i' j)])
      js)) is)) i j =
     (if i \<in> set is \<and> j \<in> set js then f i j else 0)"
  by (induction "is") (auto simp: entry_sum_Nil entry_sum_append entry_sum_row)

lemma in_bounds_canonical:
  "in_bounds (r, c) (concat (map (\<lambda>i'. concat (map (\<lambda>j. if f i' j = 0 then []
      else [((i', j), f i' j)]) [0..<c])) [0..<r]))"
  by (auto simp: in_bounds_def list_all_iff split: if_splits)

lemma entry_sum_sp_add:
  assumes "sp_add A B = Inr C"
  shows "spshape C = spshape A \<and> in_bounds (spshape C) (stored C) \<and>
         entry_sum (stored C) i j =
           (if i < fst (spshape A) \<and> j < snd (spshape A)
            then entry_sum (stored A) i j + entry_sum (stored B) i j else 0)"
proof -
  obtain r c where shp: "spshape A = (r, c)" by (cases "spshape A") auto
  from assms have C: "C = \<lparr>spshape = spshape A,
      stored = concat (map (\<lambda>i. concat (map (\<lambda>j.
                   if entry_sum (stored A) i j + entry_sum (stored B) i j = 0 then []
                   else [((i, j), entry_sum (stored A) i j + entry_sum (stored B) i j)])
                   [0..<snd (spshape A)])) [0..<fst (spshape A)])\<rparr>"
    by (cases "spshape A = spshape B") (simp_all add: sp_add_def)
  have "distinct [0..<r]" "distinct [0..<c]" by simp_all
  from entry_sum_canonical [OF this,
      of "\<lambda>i j. entry_sum (stored A) i j + entry_sum (stored B) i j" i j]
    in_bounds_canonical [of r c "\<lambda>i j. entry_sum (stored A) i j + entry_sum (stored B) i j"]
  show ?thesis
    by (simp add: C shp)
qed

lemma todense_from_scipy_sparse:
  "todense (from_scipy_sparse mat) i j = entry_sum (stored mat) i j"
  by (simp add: todense_def entries_def from_scipy_sparse_def zip_map_fst_snd)

lemma entries_from_scipy_sparse: "entries (from_scipy_sparse mat) = stored mat"
  by (simp add: entries_def from_scipy_sparse_def zip_map_fst_snd)

lemma diags_lap_1d: "0 < k \<Longrightarrow> diags [- 1, 2, - 1] [- 1, 0, 1] (k, k) = Inr (lap_1d k)"
  by (simp add: diags_laplacian lap_1d_def)

lemma entry_sum_lap_1d: "entry_sum (stored (lap_1d k)) i j = tridiag k i j"
  by (simp add: lap_1d_def entry_sum_laplacian_1d)

lemma in_bounds_lap_1d: "in_bounds (spshape (lap_1d k)) (stored (lap_1d k))"
  by (simp add: lap_1d_def in_bounds_append in_bounds_diagonal_entries)

lemma spshape_lap_1d: "spshape (lap_1d k) = (k, k)"
  by (simp add: lap_1d_def)

lemma spshape_eye: "spshape (eye k) = (k, k)"
  by (simp add: eye_def)

lemma spshape_kron:
  "spshape (kron A B) = (fst (spshape A) * fst (spshape B), snd (spshape A) * snd (spshape B))"
  by (simp add: kron_def)

lemma poisson_terms:
  "entry_sum (stored (kron (eye m) (lap_1d n))) i j =
     kron_dense (identity_matrix m) (n, n) (tridiag n) i j"
  "entry_sum (stored (kron (lap_1d m) (eye n))) i j =
     kron_dense (tridiag m) (n, n) (identity_matrix n) i j"
  using entry_sum_kron [where B = "lap_1d n" and A = "eye m", OF in_bounds_lap_1d, of i j]
    entry_sum_kron [where B = "eye n" and A = "lap_1d m", OF in_bounds_eye, of i j]
  by (simp_all add: spshape_lap_1d spshape_eye entry_sum_eye entry_sum_lap_1d kron_dense_def)

lemma poisson_unfold:
  assumes "0 < n" "0 < m"
  shows "\<exists>lap_2d. sp_add (kron (eye m) (lap_1d n)) (kron (lap_1d m) (eye n)) = Inr lap_2d \<and>
           poisson n m = Inr (from_scipy_sparse lap_2d)"
proof -
  have "spshape (kron (eye m) (lap_1d n)) = spshape (kron (lap_1d m) (eye n))"
    by (simp add: spshape_kron spshape_eye spshape_lap_1d)
  then obtain lap_2d where
    "sp_add (kron (eye m) (lap_1d n)) (kron (lap_1d m) (eye n)) = Inr lap_2d"
    by (simp add: sp_add_def)
  then show ?thesis
    using assms by (simp add: poisson_def diags_lap_1d)
qed

lemma poisson_dense:
  assumes "poisson n m = Inr A"
  shows "0 < n \<and> 0 < m \<and> shape A = (n * m, n * m) \<and>
         length (data A) = length (indices A) \<and> in_bounds (shape A) (entries A) \<and>
         todense A i j =
           (if i < n * m \<and> j < n * m
            then kron_dense (identity_matrix m) (n, n) (tridiag n) i j +
                 kron_dense (tridiag m) (n, n) (identity_matrix n) i j
            else 0)"
proof -
  have n: "0 < n"
    using assms by (cases n) (simp_all add: poisson_def diags_laplacian_zero)
  have m: "0 < m"
    using assms n by (cases m) (simp_all add: poisson_def diags_lap_1d diags_laplacian_zero)
  from poisson_unfold [OF n m] assms obtain lap_2d where
    add: "sp_add (kron (eye m) (lap_1d n)) (kron (lap_1d m) (eye n)) = Inr lap_2d" and
    A: "A = from_scipy_sparse lap_2d"
    by auto
  have shp: "spshape (kron (eye m) (lap_1d n)) = (n * m, n * m)"
    by (simp add: spshape_kron spshape_eye spshape_lap_1d mult.commute)
  note sum = entry_sum_sp_add [OF add, of i j]
  from sum have s1: "spshape lap_2d = (n * m, n * m)"
    by (simp add: shp)
  from sum have s2: "in_bounds (spshape lap_2d) (stored lap_2d)"
    by blast
  from sum have s3: "entry_sum (stored lap_2d) i j =
           (if i < n * m \<and> j < n * m
            then kron_dense (identity_matrix m) (n, n) (tridiag n) i j +
                 kron_dense (tridiag m) (n, n) (identity_matrix n) i j
            else 0)"
    by (simp add: shp poisson_terms)
  have s4: "shape A = spshape lap_2d" "length (data A) = length (indices A)"
    by (simp_all add: A from_scipy_sparse_def)
  have s5: "in_bounds (shape A) (entries A)"
    using s2 unfolding A entries_from_scipy_sparse by (simp add: from_scipy_sparse_def)
  have s6: "todense A i j = entry_sum (stored lap_2d) i j"
    by (simp add: A todense_from_scipy_sparse)
  show ?thesis
    using n m s1 s3 s4 s5 s6 by simp
qed

lemma kronecker_sum_stencil:
  assumes "x < n" "x' < n"
  shows "kron_dense (identity_matrix m) (n, n) (tridiag n) (y * n + x) (y' * n + x') +
         kron_dense (tridiag m) (n, n) (identity_matrix n) (y * n + x) (y' * n + x') =
         (if y < m \<and> y' < m then laplacian_stencil (x, y) (x', y') else 0)"
  using assms
  by (auto simp: kron_dense_def identity_matrix_def tridiag_def laplacian_stencil_def)

text \<open>
  C4. For positive \<open>n\<close> and \<open>m\<close>, \<^verbatim>\<open>poisson(n, m)\<close> returns a sparse representation of the
  square \<open>(n\<cdot>m)\<times>(n\<cdot>m)\<close> matrix \<open>kron(I\<^sub>m, T\<^sub>n) + kron(T\<^sub>m, I\<^sub>n)\<close>: the shape is
  \<open>(n\<cdot>m, n\<cdot>m)\<close>, every stored index lies inside it, and the represented entry at each
  position is that of the Kronecker sum. This matrix is the discrete Laplacian of the
  \<open>n\<close>-by-\<open>m\<close> grid: with the grid point \<open>(x, y)\<close> numbered \<open>y\<cdot>n + x\<close>, the entry is 4 on a
  point itself, \<open>-1\<close> between neighbours and 0 elsewhere.
\<close>

theorem poisson_kronecker_sum:
  assumes "0 < n" "0 < m"
  shows "\<exists>A. poisson n m = Inr A \<and> shape A = (n * m, n * m) \<and>
           length (data A) = length (indices A) \<and> in_bounds (shape A) (entries A) \<and>
           (\<forall>i<n * m. \<forall>j<n * m. todense A i j =
              kron_dense (identity_matrix m) (n, n) (tridiag n) i j +
              kron_dense (tridiag m) (n, n) (identity_matrix n) i j) \<and>
           (\<forall>x<n. \<forall>y<m. \<forall>x'<n. \<forall>y'<m.
              todense A (y * n + x) (y' * n + x') = laplacian_stencil (x, y) (x', y'))"
proof -
  from poisson_unfold [OF assms] obtain A where A: "poisson n m = Inr A" by blast
  have grid: "y * n + x < n * m" if "x < n" "y < m" for x y
  proof -
    from that have "y * n + x < Suc y * n" by simp
    moreover from that have "Suc y * n \<le> m * n"
      by (intro mult_le_mono1) simp
    ultimately show ?thesis by (simp add: mult.commute)
  qed
  have "todense A (y * n + x) (y' * n + x') = laplacian_stencil (x, y) (x', y')"
    if "x < n" "y < m" "x' < n" "y' < m" for x y x' y'
    using poisson_dense [OF A, of "y * n + x" "y' * n + x'"] that grid
      kronecker_sum_stencil [of x n x' m y y']
    by simp
  moreover have "todense A i j =
              kron_dense (identity_matrix m) (n, n) (tridiag n) i j +
              kron_dense (tridiag m) (n, n) (identity_matrix n) i j"
    if "i < n * m" "j < n * m" for i j
    using poisson_dense [OF A, of i j] that by simp
  moreover have "shape A = (n * m, n * m)" "length (data A) = length (indices A)"
    "in_bounds (shape A) (entries A)"
    using poisson_dense [OF A, of 0 0] by blast+
  ultimately show ?thesis
    using A by blast
qed

theorem poisson_kronecker_sum_witness:
  "(0::nat) < 2 \<and> (0::nat) < 1 \<and>
   poisson 2 1 = Inr \<lparr>data = [4, - 1, - 1, 4], indices = [(0, 0), (0, 1), (1, 0), (1, 1)],
                       shape = (2, 2)\<rparr> \<and>
   todense \<lparr>data = [4, - 1, - 1, 4], indices = [(0, 0), (0, 1), (1, 0), (1, 1)],
            shape = (2, 2)\<rparr> 0 1 = laplacian_stencil (0, 0) (1, 0)"
proof -
  let ?M = "\<lparr>data = [4, - 1, - 1, 4 :: real], indices = [(0, 0), (0, 1), (1, 0), (1, 1)],
             shape = (2, 2)\<rparr>"
  have n: "(0::nat) < 2" and m: "(0::nat) < 1" by simp_all
  have run: "poisson 2 1 = Inr ?M" by code_simp
  from poisson_kronecker_sum [OF n m] run
  have "\<forall>x<2. \<forall>y<1. \<forall>x'<2. \<forall>y'<1.
          todense ?M (y * 2 + x) (y' * 2 + x') = laplacian_stencil (x, y) (x', y')"
    by auto
  then have "todense ?M (0 * 2 + 0) (0 * 2 + 1) = laplacian_stencil (0, 0) (1, 0)"
    by (metis n m one_less_numeral_iff semiring_norm(76))
  with n m run show ?thesis by simp
qed

section \<open>Properties of the operator and the preconditioner\<close>

lemma length_preconditioner_fn:
  "length (preconditioner_fn jacobi x) = min (length x) (length jacobi)"
  by (simp add: preconditioner_fn_def)

lemma nth_preconditioner_fn:
  "i < length x \<Longrightarrow> i < length jacobi \<Longrightarrow>
   preconditioner_fn jacobi x ! i = true_divide (x ! i) (jacobi ! i)"
  by (simp add: preconditioner_fn_def)

lemma todense_absent:
  "(i, j) \<notin> set (indices A) \<Longrightarrow> todense A i j = 0"
proof -
  assume absent: "(i, j) \<notin> set (indices A)"
  have "filter (\<lambda>e. fst e = (i, j)) (zip (indices A) (data A)) = []"
    using absent by (auto simp: filter_empty_conv dest: set_zip_leftD)
  then show ?thesis
    by (simp add: todense_def entry_sum_def entries_def)
qed

text \<open>
  C6. The preconditioner divides elementwise by the extracted diagonal with no guard.
  For a matrix of shape \<open>(N, N)\<close> and a vector \<open>x\<close> of length \<open>N\<close>, its output has a value
  at coordinate \<open>i\<close> exactly when the \<open>i\<close>-th entry of \<^verbatim>\<open>get_diagonal(A)\<close> is not zero, so it
  is defined everywhere exactly when every diagonal entry is nonzero; where the diagonal
  entry is zero, in particular where no entry \<open>(i, i)\<close> is stored, the output is undefined.
\<close>

theorem preconditioner_defined_iff_diagonal_nonzero:
  assumes "shape A = (N, N)" "length x = N"
  shows "length (preconditioner_fn (get_diagonal A) x) = N \<and>
         (\<forall>i<N. preconditioner_fn (get_diagonal A) x ! i =
            (if get_diagonal A ! i = 0 then None else Some (x ! i / get_diagonal A ! i))) \<and>
         ((\<forall>i<N. preconditioner_fn (get_diagonal A) x ! i \<noteq> None) \<longleftrightarrow>
          (\<forall>i<N. get_diagonal A ! i \<noteq> 0)) \<and>
         (\<forall>i<N. (i, i) \<notin> set (indices A) \<longrightarrow>
            get_diagonal A ! i = 0 \<and> preconditioner_fn (get_diagonal A) x ! i = None)"
proof -
  have len: "length (get_diagonal A) = N"
    using assms by (simp add: length_get_diagonal)
  have nth: "preconditioner_fn (get_diagonal A) x ! i =
      (if get_diagonal A ! i = 0 then None else Some (x ! i / get_diagonal A ! i))"
    if "i < N" for i
    using that assms len by (simp add: nth_preconditioner_fn true_divide_def)
  have absent: "get_diagonal A ! i = 0" if "i < N" "(i, i) \<notin> set (indices A)" for i
    using that assms by (simp add: nth_get_diagonal todense_absent)
  have "(\<forall>i<N. preconditioner_fn (get_diagonal A) x ! i \<noteq> None) \<longleftrightarrow>
        (\<forall>i<N. get_diagonal A ! i \<noteq> 0)"
    using nth by auto
  moreover have "length (preconditioner_fn (get_diagonal A) x) = N"
    using assms len by (simp add: length_preconditioner_fn)
  ultimately show ?thesis
    using nth absent by simp
qed

theorem preconditioner_defined_iff_diagonal_nonzero_witness:
  "shape \<lparr>data = [2, 5], indices = [(0, 0), (1, 0)], shape = (2, 2)\<rparr> = (2, 2) \<and>
   length [6, 7 :: real] = 2 \<and>
   preconditioner_fn (get_diagonal \<lparr>data = [2, 5], indices = [(0, 0), (1, 0)], shape = (2, 2)\<rparr>)
     [6, 7] = [Some 3, None]"
proof -
  let ?A = "\<lparr>data = [2, 5 :: real], indices = [(0, 0), (1, 0)], shape = (2, 2)\<rparr>"
  have s: "shape ?A = (2, 2)" and l: "length [6, 7 :: real] = 2" by simp_all
  have d: "get_diagonal ?A = [2, 0]"
    by (simp add: get_diagonal_def where0_def numeral_2_eq_2)
  from preconditioner_defined_iff_diagonal_nonzero [OF s l]
  have len: "length (preconditioner_fn (get_diagonal ?A) [6, 7]) = 2"
    and nth: "\<forall>i<2. preconditioner_fn (get_diagonal ?A) [6, 7] ! i =
            (if get_diagonal ?A ! i = 0 then None else Some ([6, 7] ! i / get_diagonal ?A ! i))"
    by blast+
  have "preconditioner_fn (get_diagonal ?A) [6, 7] ! 0 = Some 3"
    using nth [rule_format, of 0] unfolding d by simp
  moreover have "preconditioner_fn (get_diagonal ?A) [6, 7] ! 1 = None"
    using nth [rule_format, of 1] unfolding d by simp
  ultimately have "preconditioner_fn (get_diagonal ?A) [6, 7] = [Some 3, None]"
    using len by (auto simp: length_Suc_conv numeral_2_eq_2)
  with s l show ?thesis by simp
qed

text \<open>
  C7. The positive-semidefinite tag registered for \<^verbatim>\<open>SparseMatrixLinearOperator\<close> answers
  \<open>True\<close> for every instance, whatever matrix it wraps: also for the operator of the 1-by-1
  matrix \<open>(-1)\<close>, whose quadratic form is negative at the vector \<open>(1)\<close>, so that it is not
  positive semidefinite.
\<close>

theorem is_positive_semidefinite_unconditional:
  "is_positive_semidefinite op = True \<and>
   is_positive_semidefinite \<lparr>matrix = \<lparr>data = [- 1], indices = [(0, 0)], shape = (1, 1)\<rparr>\<rparr> \<and>
   dot [1] (mv \<lparr>matrix = \<lparr>data = [- 1], indices = [(0, 0)], shape = (1, 1)\<rparr>\<rparr> [1]) < 0"
  by (simp add: is_positive_semidefinite_def mv_def bcoo_matvec_def dot_def zeros_def)

section \<open>Vector algebra on lists\<close>

lemma length_zeros [simp]: "length (zeros n) = n"
  by (simp add: zeros_def)

lemma length_vscale [simp]: "length (vscale a v) = length v"
  by (simp add: vscale_def)

lemma length_vadd [simp]: "length (vadd u v) = min (length u) (length v)"
  by (simp add: vadd_def)

lemma length_vsub [simp]: "length (vsub u v) = min (length u) (length v)"
  by (simp add: vsub_def)

lemma dot_Nil [simp]: "dot [] v = 0" "dot u [] = 0"
  by (simp_all add: dot_def)

lemma dot_Cons [simp]: "dot (x # u) (y # v) = x * y + dot u v"
  by (simp add: dot_def)

lemma vscale_Nil [simp]: "vscale a [] = []"
  by (simp add: vscale_def)

lemma vscale_Cons [simp]: "vscale a (x # v) = a * x # vscale a v"
  by (simp add: vscale_def)

lemma vadd_Cons [simp]: "vadd (x # u) (y # v) = (x + y) # vadd u v"
  by (simp add: vadd_def)

lemma vsub_Cons [simp]: "vsub (x # u) (y # v) = (x - y) # vsub u v"
  by (simp add: vsub_def)

lemma vadd_Nil [simp]: "vadd [] v = []" "vadd u [] = []"
  by (simp_all add: vadd_def)

lemma vsub_Nil [simp]: "vsub [] v = []" "vsub u [] = []"
  by (simp_all add: vsub_def)

lemma dot_commute: "dot u v = dot v u"
proof (induction u arbitrary: v)
  case Nil
  then show ?case by simp
next
  case (Cons x u)
  then show ?case by (cases v) simp_all
qed

lemma dot_self_nonneg: "0 \<le> dot v v"
  by (induction v) simp_all

lemma vnorm_nonneg: "0 \<le> vnorm v"
  by (simp add: vnorm_def dot_self_nonneg)

lemma dot_self_zero_iff: "dot v v = 0 \<longleftrightarrow> v = zeros (length v)"
proof (induction v)
  case Nil
  then show ?case by (simp add: zeros_def)
next
  case (Cons x v)
  have "x * x + dot v v = 0 \<longleftrightarrow> x = 0 \<and> dot v v = 0"
    using dot_self_nonneg [of v] by (simp add: add_nonneg_eq_0_iff)
  with Cons show ?case by (simp add: zeros_def)
qed

lemma vnorm_zero_iff: "vnorm v = 0 \<longleftrightarrow> v = zeros (length v)"
  by (simp add: vnorm_def dot_self_zero_iff)

lemma vnorm_squared: "(vnorm v)\<^sup>2 = dot v v"
  by (simp add: vnorm_def dot_self_nonneg)

lemma dot_vscale_left: "dot (vscale a u) v = a * dot u v"
proof (induction u arbitrary: v)
  case Nil
  then show ?case by simp
next
  case (Cons x u)
  then show ?case by (cases v) (simp_all add: distrib_left)
qed

lemma dot_vscale_right: "dot u (vscale a v) = a * dot u v"
  using dot_vscale_left [of a v u] by (simp add: dot_commute)

lemma dot_vadd_left:
  "length u = length v \<Longrightarrow> dot (vadd u v) w = dot u w + dot v w"
proof (induction u v arbitrary: w rule: list_induct2)
  case Nil
  then show ?case by simp
next
  case (Cons x u y v)
  then show ?case by (cases w) (simp_all add: distrib_right)
qed

lemma dot_vsub_left:
  "length u = length v \<Longrightarrow> dot (vsub u v) w = dot u w - dot v w"
proof (induction u v arbitrary: w rule: list_induct2)
  case Nil
  then show ?case by simp
next
  case (Cons x u y v)
  then show ?case by (cases w) (simp_all add: left_diff_distrib)
qed

lemma dot_vadd_right:
  "length u = length v \<Longrightarrow> dot w (vadd u v) = dot w u + dot w v"
  using dot_vadd_left [of u v w] by (simp add: dot_commute)

lemma dot_vsub_right:
  "length u = length v \<Longrightarrow> dot w (vsub u v) = dot w u - dot w v"
  using dot_vsub_left [of u v w] by (simp add: dot_commute)

lemma dot_zeros [simp]: "dot (zeros n) v = 0" "dot v (zeros n) = 0"
proof -
  show "dot (zeros n) v = 0"
    by (induction n arbitrary: v) (simp_all add: zeros_def, case_tac v, simp_all)
  then show "dot v (zeros n) = 0"
    by (simp add: dot_commute)
qed

lemma vnorm_vscale: "vnorm (vscale a v) = \<bar>a\<bar> * vnorm v"
  by (simp add: vnorm_def dot_vscale_left dot_vscale_right real_sqrt_mult
      flip: mult.assoc)

lemma vscale_vscale: "vscale a (vscale b v) = vscale (a * b) v"
  by (simp add: vscale_def)

lemma vscale_one [simp]: "vscale 1 v = v"
  by (induction v) simp_all

lemma vscale_zero: "vscale 0 v = zeros (length v)"
  by (induction v) (simp_all add: zeros_def)

lemma vscale_zeros [simp]: "vscale a (zeros n) = zeros n"
  by (simp add: vscale_def zeros_def)

lemma vsub_zeros [simp]: "vsub (zeros n) (zeros n) = zeros n"
  by (induction n) (simp_all add: zeros_def)

lemma vnorm_zeros [simp]: "vnorm (zeros n) = 0"
  by (simp add: vnorm_def)

lemma linear_on_zeros:
  assumes "linear_on N f"
  shows "f (zeros N) = zeros N"
proof -
  from assms have l: "\<forall>v. length v = N \<longrightarrow> length (f v) = N"
    and h: "\<forall>a v. length v = N \<longrightarrow> f (vscale a v) = vscale a (f v)"
    unfolding linear_on_def by blast+
  from l have len: "length (f (zeros N)) = N" by simp
  from h [rule_format, of "zeros N" 0] have "f (zeros N) = vscale 0 (f (zeros N))" by simp
  also have "\<dots> = zeros N" by (simp add: vscale_zero len)
  finally show ?thesis .
qed

lemma matvec_vadd:
  assumes "length u = length v"
  shows "matvec rows (vadd u v) = vadd (matvec rows u) (matvec rows v)"
  by (induction rows) (simp_all add: matvec_def dot_vadd_right [OF assms])

lemma matvec_vscale: "matvec rows (vscale a v) = vscale a (matvec rows v)"
  by (induction rows) (simp_all add: matvec_def dot_vscale_right)

lemma length_matvec [simp]: "length (matvec rows v) = length rows"
  by (simp add: matvec_def)

lemma linear_on_matvec: "length rows = N \<Longrightarrow> linear_on N (matvec rows)"
  by (simp add: linear_on_def matvec_vadd matvec_vscale)

section \<open>Properties of the solver's state machine\<close>

lemma length_rotations_arnoldi_step:
  "length (rotations (arnoldi_step Aop st)) = Suc (length (rotations st))"
  by (simp add: arnoldi_step_def Let_def split: prod.splits)

lemma gmres_loop_outcome:
  assumes "gmres_loop n Aop tol st = (st', stat)" "tol < \<bar>last (rhs st)\<bar>"
  shows "(stat = CONVERGED \<longleftrightarrow> \<bar>last (rhs st')\<bar> \<le> tol) \<and>
         length (rotations st') \<le> length (rotations st) + n \<and>
         (stat = MAX_STEPS_REACHED \<longrightarrow> length (rotations st') = length (rotations st) + n) \<and>
         (stat = BREAKDOWN \<longrightarrow> breakdown st')"
  using assms
proof (induction n arbitrary: st)
  case 0
  then show ?case by auto
next
  case (Suc n)
  let ?st = "arnoldi_step Aop st"
  show ?case
  proof (cases "\<bar>last (rhs ?st)\<bar> \<le> tol \<or> n = 0 \<or> breakdown ?st")
    case True
    with Suc.prems show ?thesis
      by (auto simp: Let_def length_rotations_arnoldi_step split: if_splits)
  next
    case False
    with Suc.prems have "gmres_loop n Aop tol ?st = (st', stat)" "tol < \<bar>last (rhs ?st)\<bar>"
      by (simp_all add: Let_def)
    from Suc.IH [OF this] show ?thesis
      by (simp add: length_rotations_arnoldi_step)
  qed
qed

lemma solve_conforming:
  assumes "conforming A b x0_opt pre"
  shows "\<exists>r. solve solver A b x0_opt pre = (iterations r, Inr r) \<and>
           (status r = CONVERGED \<longleftrightarrow>
              residual_norm r \<le> atol solver + rtol solver * vnorm b) \<and>
           converged r = (status r = CONVERGED) \<and>
           iterations r \<le> max_steps solver \<and>
           (status r = MAX_STEPS_REACHED \<longrightarrow> iterations r = max_steps solver)"
proof -
  define N where "N = snd (op_shape A)"
  define x0 where "x0 = (case x0_opt of None \<Rightarrow> zeros N | Some x \<Rightarrow> x)"
  define r0 where "r0 = initial_residual A b x0 pre"
  define tol where "tol = atol solver + rtol solver * vnorm b"
  show ?thesis
  proof (cases "vnorm r0 \<le> tol")
    case True
    with assms show ?thesis
      unfolding r0_def x0_def N_def tol_def by (simp add: solve_def Let_def)
  next
    case False
    define st0 where "st0 = \<lparr>basis = [vscale (1 / vnorm r0) r0], hessenberg = [], rotations = [],
                        triangular = [], rhs = [vnorm r0], breakdown = False\<rparr>"
    obtain st stat where
      loop: "gmres_loop (max_steps solver) (effective_operator A pre) tol st0 = (st, stat)"
      by (cases "gmres_loop (max_steps solver) (effective_operator A pre) tol st0") auto
    have "vnorm r0 \<ge> 0" by (rule vnorm_nonneg)
    with False have "tol < \<bar>last (rhs st0)\<bar>"
      by (simp add: st0_def)
    from gmres_loop_outcome [OF loop this]
    have out: "(stat = CONVERGED \<longleftrightarrow> \<bar>last (rhs st)\<bar> \<le> tol)"
      "length (rotations st) \<le> max_steps solver"
      "stat = MAX_STEPS_REACHED \<longrightarrow> length (rotations st) = max_steps solver"
      by (simp_all add: st0_def)
    have "solve solver A b x0_opt pre =
          (length (rotations st),
           Inr \<lparr>solution = reconstruct N x0 pre st, converged = (stat = CONVERGED),
                iterations = length (rotations st),
                residual_norm = \<bar>last (rhs st)\<bar>, status = stat\<rparr>)"
      using assms False loop
      unfolding st0_def r0_def x0_def N_def tol_def by (simp add: solve_def Let_def)
    with out show ?thesis
      by (simp add: tol_def)
  qed
qed

lemma sqrt_4: "sqrt 4 = 2"
  using real_sqrt_abs [of 2] by simp

lemma sqrt_16: "sqrt 16 = 4"
  using real_sqrt_abs [of 4] by simp

lemma sqrt_25: "sqrt 25 = 5"
  using real_sqrt_abs [of 5] by simp

lemmas solve_eval =
  solve_def conforming_def MatrixLinearOperator_def matvec_def initial_residual_def
  dot_def vnorm_def vsub_def vadd_def vscale_def zeros_def arnoldi_step_def givens_def
  effective_operator_def reconstruct_def back_substitute_def Let_def numeral_2_eq_2
  sqrt_4 sqrt_16 sqrt_25

text \<open>
  C5. In best-effort mode a solve with conforming operands never ends in an error: it
  returns a result carrying the solution and a status, and non-convergence shows only
  there. The status is CONVERGED exactly when the final residual norm is within
  \<open>atol + rtol * ||b||\<close>; at most \<open>max_steps\<close> iterations are made, and a solve that exhausts
  them without meeting the tolerance returns with MAX_STEPS_REACHED.
\<close>

theorem best_effort_returns_result:
  assumes "conforming A b x0_opt pre"
  shows "\<exists>r. solve solver A b x0_opt pre = (iterations r, Inr r) \<and>
           converged r = (status r = CONVERGED) \<and>
           (status r = CONVERGED \<longleftrightarrow>
              residual_norm r \<le> atol solver + rtol solver * vnorm b) \<and>
           iterations r \<le> max_steps solver \<and>
           (status r = MAX_STEPS_REACHED \<longrightarrow> iterations r = max_steps solver)"
  using solve_conforming [OF assms, of solver] by blast

theorem best_effort_returns_result_witness:
  "conforming (MatrixLinearOperator [[3, 4], [4, 6]] []) [1, 0] None None \<and>
   (\<exists>r. solve \<lparr>atol = 1 / 100000, rtol = 1 / 100000, max_steps = 1\<rparr>
           (MatrixLinearOperator [[3, 4], [4, 6]] []) [1, 0] None None = (1, Inr r) \<and>
         solution r = [3 / 25, 0] \<and> \<not> converged r \<and> status r = MAX_STEPS_REACHED)"
proof -
  let ?A = "MatrixLinearOperator [[3, 4], [4, 6]] []"
  let ?s = "\<lparr>atol = 1 / 100000, rtol = 1 / 100000, max_steps = 1\<rparr>"
  have c: "conforming ?A [1, 0] None None"
    by (simp add: conforming_def MatrixLinearOperator_def)
  have run: "solve ?s ?A [1, 0] None None =
      (1, Inr \<lparr>solution = [3 / 25, 0], converged = False, iterations = 1,
               residual_norm = 4 / 5, status = MAX_STEPS_REACHED\<rparr>)"
    by (simp add: solve_eval)
  from best_effort_returns_result [OF c, of ?s] obtain r where
    r: "solve ?s ?A [1, 0] None None = (iterations r, Inr r)" by blast
  have "Inr r = snd (solve ?s ?A [1, 0] None None)"
    by (simp only: r snd_conv)
  also have "\<dots> = Inr \<lparr>solution = [3 / 25, 0], converged = False, iterations = 1,
               residual_norm = 4 / 5, status = MAX_STEPS_REACHED\<rparr>"
    by (simp only: run snd_conv)
  finally have req: "r = \<lparr>solution = [3 / 25, 0], converged = False, iterations = 1,
               residual_norm = 4 / 5, status = MAX_STEPS_REACHED\<rparr>"
    by (simp only: sum.inject)
  have run': "solve ?s ?A [1, 0] None None = (1, Inr r)"
    unfolding req by (rule run)
  have "solution r = [3 / 25, 0]" "\<not> converged r" "status r = MAX_STEPS_REACHED"
    unfolding req by simp_all
  with c run' show ?thesis by blast
qed

text \<open>
  C9. A solve whose right-hand side \<open>b\<close> does not have the operator's declared dimension
  fails at once with \<^verbatim>\<open>DimensionMismatch\<close>: it performs no iteration, and its outcome is
  the error, not a result with a status. Applying the operator to such a vector fails in
  the same way.
\<close>

theorem dimension_mismatch_fails_at_once:
  assumes "length b \<noteq> snd (op_shape A)"
  shows "solve solver A b x0_opt pre = (0, Inl DimensionMismatch) \<and>
         op_apply A b = Inl DimensionMismatch"
  using assms by (simp add: solve_def conforming_def op_apply_def)

theorem dimension_mismatch_fails_at_once_witness:
  "length [1, 0, 0 :: real] \<noteq> snd (op_shape (MatrixLinearOperator [[3, 4], [4, 6]] [])) \<and>
   solve \<lparr>atol = 0, rtol = 0, max_steps = 30\<rparr> (MatrixLinearOperator [[3, 4], [4, 6]] [])
     [1, 0, 0] None None = (0, Inl DimensionMismatch)"
proof -
  have l: "length [1, 0, 0 :: real] \<noteq> snd (op_shape (MatrixLinearOperator [[3, 4], [4, 6]] []))"
    by (simp add: MatrixLinearOperator_def)
  from dimension_mismatch_fails_at_once [OF l] l show ?thesis by blast
qed

lemma solve_init_converged:
  assumes "conforming A b x0_opt pre"
    and "x0 = (case x0_opt of None \<Rightarrow> zeros (snd (op_shape A)) | Some x \<Rightarrow> x)"
    and "vnorm (initial_residual A b x0 pre) \<le> atol solver + rtol solver * vnorm b"
  shows "solve solver A b x0_opt pre =
           (0, Inr \<lparr>solution = x0, converged = True, iterations = 0,
                    residual_norm = vnorm (initial_residual A b x0 pre), status = CONVERGED\<rparr>)"
  using assms(1,3) unfolding assms(2) by (simp add: solve_def Let_def)

lemma initial_residual_zero:
  assumes "linear_on N (apply_fn A)"
    and "\<forall>M. pre = Some (Left, M) \<longrightarrow> linear_on N (apply_fn M)"
  shows "initial_residual A (zeros N) (zeros N) pre = zeros N"
proof -
  have r0: "vsub (zeros N) (apply_fn A (zeros N)) = zeros N"
    by (simp add: linear_on_zeros [OF assms(1)])
  show ?thesis
  proof (cases pre)
    case None
    with r0 show ?thesis by (simp add: initial_residual_def)
  next
    case (Some p)
    obtain sd M where p: "p = (sd, M)" by (cases p) auto
    show ?thesis
    proof (cases sd)
      case Left
      with Some p assms(2) have "linear_on N (apply_fn M)" by simp
      from linear_on_zeros [OF this] Some p Left r0 show ?thesis
        by (simp add: initial_residual_def)
    next
      case Right
      with Some p r0 show ?thesis by (simp add: initial_residual_def)
    qed
  qed
qed

text \<open>
  C8, counterexample. With the left preconditioner \<open>2 I\<close> on the 1-by-1 identity system
  \<open>x = 1\<close> and the default initial guess, \<open>||b - A x\<^sub>0|| = 1\<close> is within the tolerance
  \<open>atol = 1\<close>, yet the solve does not stop in INIT: the effective residual \<open>M (b - A x\<^sub>0)\<close>
  has norm 2, so one iteration is made and the solution returned is not the initial
  guess.
\<close>

theorem residual_within_tolerance_counterexample:
  "vnorm (vsub [1] (apply_fn (MatrixLinearOperator [[1]] []) (zeros 1)))
     \<le> atol \<lparr>atol = 1, rtol = 0, max_steps = 2\<rparr> +
       rtol \<lparr>atol = 1, rtol = 0, max_steps = 2\<rparr> * vnorm [1] \<and>
   solve \<lparr>atol = 1, rtol = 0, max_steps = 2\<rparr> (MatrixLinearOperator [[1]] []) [1] None
     (Some (Left, MatrixLinearOperator [[2]] [])) =
     (1, Inr \<lparr>solution = [1], converged = True, iterations = 1, residual_norm = 0,
              status = CONVERGED\<rparr>)"
  by (simp add: solve_eval)

text \<open>
  C8, as amended. Let \<open>beta\<close> be the norm of the effective initial residual, \<open>b - A x\<^sub>0\<close>, or
  \<open>M (b - A x\<^sub>0)\<close> when a left preconditioner \<open>M\<close> is given. If \<open>beta \<le> atol + rtol * ||b||\<close>,
  the solve ends in CONVERGED with zero iterations and returns the initial guess. This
  is so whenever \<open>b\<close> is the zero vector and the initial guess defaults to the zero vector,
  the tolerances being non-negative and the operators linear: the solution is then the
  zero vector.
\<close>

theorem initial_residual_within_tolerance:
  assumes "conforming A b x0_opt pre"
    and "x0 = (case x0_opt of None \<Rightarrow> zeros (snd (op_shape A)) | Some x \<Rightarrow> x)"
  shows "(vnorm (initial_residual A b x0 pre) \<le> atol solver + rtol solver * vnorm b \<longrightarrow>
            solve solver A b x0_opt pre =
              (0, Inr \<lparr>solution = x0, converged = True, iterations = 0,
                       residual_norm = vnorm (initial_residual A b x0 pre),
                       status = CONVERGED\<rparr>)) \<and>
         (b = zeros (snd (op_shape A)) \<and> x0_opt = None \<and>
          0 \<le> atol solver \<and> 0 \<le> rtol solver \<and>
          linear_on (snd (op_shape A)) (apply_fn A) \<and>
          (\<forall>M. pre = Some (Left, M) \<longrightarrow> linear_on (snd (op_shape A)) (apply_fn M)) \<longrightarrow>
            solve solver A b x0_opt pre =
              (0, Inr \<lparr>solution = zeros (snd (op_shape A)), converged = True, iterations = 0,
                       residual_norm = 0, status = CONVERGED\<rparr>))"
proof (intro conjI impI)
  assume "vnorm (initial_residual A b x0 pre) \<le> atol solver + rtol solver * vnorm b"
  with assms show "solve solver A b x0_opt pre =
      (0, Inr \<lparr>solution = x0, converged = True, iterations = 0,
               residual_norm = vnorm (initial_residual A b x0 pre), status = CONVERGED\<rparr>)"
    by (rule solve_init_converged)
next
  let ?N = "snd (op_shape A)"
  assume z: "b = zeros ?N \<and> x0_opt = None \<and> 0 \<le> atol solver \<and> 0 \<le> rtol solver \<and>
    linear_on ?N (apply_fn A) \<and> (\<forall>M. pre = Some (Left, M) \<longrightarrow> linear_on ?N (apply_fn M))"
  then have x0: "x0 = zeros ?N"
    using assms(2) by simp
  from z have r0: "initial_residual A b x0 pre = zeros ?N"
    using initial_residual_zero [of ?N A pre] by (simp add: x0)
  have "vnorm (initial_residual A b x0 pre) \<le> atol solver + rtol solver * vnorm b"
    unfolding r0 using z by simp
  from solve_init_converged [OF assms this] show "solve solver A b x0_opt pre =
      (0, Inr \<lparr>solution = zeros ?N, converged = True, iterations = 0,
               residual_norm = 0, status = CONVERGED\<rparr>)"
    unfolding r0 unfolding x0 by simp
qed

theorem initial_residual_within_tolerance_witness:
  "conforming (MatrixLinearOperator [[3, 4], [4, 6]] []) [1, 0] (Some [3, - 2]) None \<and>
   solve \<lparr>atol = 0, rtol = 0, max_steps = 30\<rparr> (MatrixLinearOperator [[3, 4], [4, 6]] [])
     [1, 0] (Some [3, - 2]) None =
     (0, Inr \<lparr>solution = [3, - 2], converged = True, iterations = 0, residual_norm = 0,
              status = CONVERGED\<rparr>) \<and>
   conforming (MatrixLinearOperator [[3, 4], [4, 6]] []) (zeros 2) None
     (Some (Left, MatrixLinearOperator [[2, 0], [0, 2]] [])) \<and>
   solve \<lparr>atol = 0, rtol = 0, max_steps = 30\<rparr> (MatrixLinearOperator [[3, 4], [4, 6]] [])
     (zeros 2) None (Some (Left, MatrixLinearOperator [[2, 0], [0, 2]] [])) =
     (0, Inr \<lparr>solution = zeros 2, converged = True, iterations = 0, residual_norm = 0,
              status = CONVERGED\<rparr>)"
proof -
  let ?A = "MatrixLinearOperator [[3, 4], [4, 6]] []"
  let ?M = "MatrixLinearOperator [[2, 0], [0, 2]] []"
  let ?s = "\<lparr>atol = 0, rtol = 0, max_steps = 30\<rparr>"
  have N: "snd (op_shape ?A) = 2"
    by (simp add: MatrixLinearOperator_def)
  have c1: "conforming ?A [1, 0] (Some [3, - 2]) None"
    by (simp add: conforming_def MatrixLinearOperator_def)
  have x1: "[3, - 2] = (case Some [3, - 2 :: real] of
      None \<Rightarrow> zeros (snd (op_shape ?A)) | Some x \<Rightarrow> x)"
    by simp
  have r1: "initial_residual ?A [1, 0] [3, - 2] None = [0, 0]"
    by (simp add: initial_residual_def MatrixLinearOperator_def matvec_def)
  have t1: "vnorm (initial_residual ?A [1, 0] [3, - 2] None) \<le> atol ?s + rtol ?s * vnorm [1, 0]"
    by (simp add: r1 vnorm_def)
  from initial_residual_within_tolerance [OF c1 x1, of ?s] t1
  have first: "solve ?s ?A [1, 0] (Some [3, - 2]) None =
     (0, Inr \<lparr>solution = [3, - 2], converged = True, iterations = 0, residual_norm = 0,
              status = CONVERGED\<rparr>)"
    by (simp add: r1 vnorm_def)
  have c2: "conforming ?A (zeros 2) None (Some (Left, ?M))"
    by (simp add: conforming_def MatrixLinearOperator_def)
  have x2: "zeros 2 = (case None of None \<Rightarrow> zeros (snd (op_shape ?A)) | Some x \<Rightarrow> x)"
    by (simp add: N)
  have lin: "linear_on 2 (apply_fn ?A)" "linear_on 2 (apply_fn ?M)"
    by (simp_all add: MatrixLinearOperator_def linear_on_matvec)
  from initial_residual_within_tolerance [OF c2 x2, of ?s] lin
  have second: "solve ?s ?A (zeros 2) None (Some (Left, ?M)) =
     (0, Inr \<lparr>solution = zeros 2, converged = True, iterations = 0, residual_norm = 0,
              status = CONVERGED\<rparr>)"
    by (simp add: N)
  from c1 first c2 second show ?thesis by blast
qed

section \<open>The Arnoldi process under a scaling of the operator\<close>


lemma vadd_vscale: "vadd (vscale c u) (vscale c v) = vscale c (vadd u v)"
proof (induction u arbitrary: v)
  case Nil
  then show ?case by simp
next
  case (Cons x u)
  then show ?case by (cases v) (simp_all add: distrib_left)
qed


lemma length_orthogonalize:
  "length w = N \<Longrightarrow> list_all (\<lambda>q. length q = N) qs \<Longrightarrow>
   length (snd (orthogonalize w qs)) = N \<and> length (fst (orthogonalize w qs)) = length qs"
proof (induction qs arbitrary: w)
  case Nil
  then show ?case by simp
next
  case (Cons q qs)
  from Cons.prems have "length (vsub w (vscale (dot w q) q)) = N" "list_all (\<lambda>q. length q = N) qs"
    by simp_all
  from Cons.IH [OF this] show ?case
    by (auto simp: Let_def split: prod.splits)
qed


lemma length_apply_rotations [simp]: "length (apply_rotations rots col) = length col"
  by (induction rots col rule: apply_rotations.induct) simp_all



lemma arnoldi_step_unfold:
  "arnoldi_step Aop st =
     (let ow = orthogonalize (Aop (last (basis st))) (basis st);
          hlast = vnorm (snd ow);
          col = apply_rotations (rotations st) (fst ow @ [hlast]);
          a = last (butlast col);
          cs = givens a hlast
      in \<lparr>basis = (if hlast = 0 then basis st else basis st @ [vscale (1 / hlast) (snd ow)]),
          hessenberg = hessenberg st @ [fst ow @ [hlast]],
          rotations = rotations st @ [cs],
          triangular = triangular st @ [butlast (butlast col) @ [fst cs * a + snd cs * hlast]],
          rhs = butlast (rhs st) @ [fst cs * last (rhs st), - snd cs * last (rhs st)],
          breakdown = (hlast = 0)\<rparr>)"
  by (simp add: arnoldi_step_def Let_def split: prod.splits)

lemma state_ok_arnoldi_step:
  assumes "state_ok N st" "\<not> breakdown st" "length (Aop (last (basis st))) = N"
  shows "state_ok N (arnoldi_step Aop st)"
proof -
  define ow where "ow = orthogonalize (Aop (last (basis st))) (basis st)"
  define col where "col = apply_rotations (rotations st) (fst ow @ [vnorm (snd ow)])"
  from assms have all: "list_all (\<lambda>q. length q = N) (basis st)"
    and lb: "length (basis st) = Suc (length (triangular st))"
    by (simp_all add: state_ok_def)
  from length_orthogonalize [OF assms(3) all]
  have w: "length (snd ow) = N" and hs: "length (fst ow) = length (basis st)"
    by (simp_all add: ow_def)
  have lcol: "length col = Suc (Suc (length (triangular st)))"
    by (simp add: col_def hs lb)
  have shape: "length ((triangular st @ [butlast (butlast col) @ [x]]) ! j) = Suc j \<and>
      length ((hessenberg st @ [fst ow @ [y]]) ! j) = Suc (Suc j)"
    if "j < Suc (length (triangular st))" for j x y
  proof (cases "j < length (triangular st)")
    case True
    with assms(1) show ?thesis
      by (simp add: state_ok_def nth_append)
  next
    case False
    with that have "j = length (triangular st)" by simp
    with assms(1) show ?thesis
      by (simp add: state_ok_def nth_append lcol hs lb)
  qed
  show ?thesis
    using assms(1,2) w shape unfolding state_ok_def arnoldi_step_unfold Let_def
    by (simp add: ow_def [symmetric] col_def [symmetric])
qed


lemma last_basis_length:
  "state_ok N st \<Longrightarrow> length (last (basis st)) = N"
  by (auto simp: state_ok_def list_all_iff)



lemma triangular_rev_rev:
  assumes "\<forall>j<length cols. length (cols ! j) = Suc j"
  shows "triangular_rev (rev cols)"
  using assms
proof (induction cols rule: rev_induct)
  case Nil
  then show ?case by simp
next
  case (snoc col cols)
  have "\<forall>j<length cols. length (cols ! j) = Suc j"
  proof (intro allI impI)
    fix j assume "j < length cols"
    with snoc.prems [rule_format, of j] show "length (cols ! j) = Suc j"
      by (simp add: nth_append)
  qed
  moreover from snoc.prems [rule_format, of "length cols"] have "length col = Suc (length cols)"
    by simp
  ultimately show ?case
    using snoc.IH by simp
qed

lemma combine_scaled: "combine N (map ((*) k) ys) qs = vscale k (combine N ys qs)"
proof (induction N ys qs rule: combine.induct)
  case (1 N y ys q qs)
  then show ?case
    by (simp add: vadd_vscale flip: vscale_vscale)
qed simp_all

lemma length_combine:
  "list_all (\<lambda>q. length q = N) qs \<Longrightarrow> length (combine N ys qs) = N"
  by (induction N ys qs rule: combine.induct) simp_all


lemma solve_iterating:
  assumes "conforming A b x0_opt pre"
    and "x0 = (case x0_opt of None \<Rightarrow> zeros (snd (op_shape A)) | Some x \<Rightarrow> x)"
    and "r0 = initial_residual A b x0 pre"
    and "tol = atol solver + rtol solver * vnorm b"
    and "\<not> vnorm r0 \<le> tol"
    and "st0 = \<lparr>basis = [vscale (1 / vnorm r0) r0], hessenberg = [], rotations = [],
                triangular = [], rhs = [vnorm r0], breakdown = False\<rparr>"
    and "st = fst (gmres_loop (max_steps solver) (effective_operator A pre) tol st0)"
    and "stat = snd (gmres_loop (max_steps solver) (effective_operator A pre) tol st0)"
  shows "solve solver A b x0_opt pre =
           (length (rotations st),
            Inr \<lparr>solution = reconstruct (snd (op_shape A)) x0 pre st,
                 converged = (stat = CONVERGED), iterations = length (rotations st),
                 residual_norm = \<bar>last (rhs st)\<bar>, status = stat\<rparr>)"
  using assms(1,5) unfolding assms(2,3,4,6,7,8)
  by (simp add: solve_def Let_def split: prod.splits)

lemma conforming_x0_length:
  assumes "conforming A b x0_opt pre"
  shows "length (case x0_opt of None \<Rightarrow> zeros (snd (op_shape A)) | Some x \<Rightarrow> x) =
         snd (op_shape A)"
  using assms by (cases x0_opt) (simp_all add: conforming_def)


section \<open>The Jacobi preconditioner of the Poisson matrix\<close>
















section \<open>More vector algebra: coordinates and linear combinations\<close>

lemma nth_zeros [simp]: "i < n \<Longrightarrow> zeros n ! i = 0"
  by (simp add: zeros_def)

lemma nth_vscale [simp]: "i < length v \<Longrightarrow> vscale a v ! i = a * v ! i"
  by (simp add: vscale_def)

lemma nth_vadd [simp]: "i < length u \<Longrightarrow> i < length v \<Longrightarrow> vadd u v ! i = u ! i + v ! i"
  by (simp add: vadd_def)

lemma nth_vsub [simp]: "i < length u \<Longrightarrow> i < length v \<Longrightarrow> vsub u v ! i = u ! i - v ! i"
  by (simp add: vsub_def)

lemma vec_eqI:
  assumes "length u = N" "length v = N" "\<And>i. i < N \<Longrightarrow> u ! i = v ! i"
  shows "u = v"
  using assms by (auto intro: nth_equalityI)

lemma vadd_zeros_left [simp]: "length v = N \<Longrightarrow> vadd (zeros N) v = v"
  by (rule vec_eqI [of _ N]) simp_all

lemma vadd_zeros_right [simp]: "length v = N \<Longrightarrow> vadd v (zeros N) = v"
  by (rule vec_eqI [of _ N]) simp_all

lemma vadd_commute: "vadd u v = vadd v u"
proof (induction u arbitrary: v)
  case Nil
  then show ?case by simp
next
  case (Cons x u)
  then show ?case by (cases v) simp_all
qed

lemma vadd_assoc: "vadd (vadd u v) w = vadd u (vadd v w)"
proof (induction u arbitrary: v w)
  case Nil
  then show ?case by simp
next
  case (Cons x u)
  then show ?case by (cases v; cases w) simp_all
qed

lemma vadd_left_commute: "vadd u (vadd v w) = vadd v (vadd u w)"
  by (metis vadd_assoc vadd_commute)

lemma vscale_add: "vscale (a + b) v = vadd (vscale a v) (vscale b v)"
  by (induction v) (simp_all add: distrib_right)

lemma vsub_eq_vadd: "vsub u v = vadd u (vscale (- 1) v)"
proof (induction u arbitrary: v)
  case Nil
  then show ?case by simp
next
  case (Cons x u)
  then show ?case by (cases v) simp_all
qed

lemma vsub_self [simp]: "vsub v v = zeros (length v)"
  by (induction v) (simp_all add: zeros_def)

lemma vscale_eq_zeros: "vscale a v = zeros (length v) \<longleftrightarrow> a = 0 \<or> v = zeros (length v)"
  by (induction v) (auto simp: zeros_def)

lemma vnorm_unit:
  assumes "vnorm w \<noteq> 0"
  shows "vnorm (vscale (1 / vnorm w) w) = 1"
  using assms vnorm_nonneg [of w] by (simp add: vnorm_vscale)

lemma vscale_vnorm_normalized:
  "vnorm w \<noteq> 0 \<Longrightarrow> vscale (vnorm w) (vscale (1 / vnorm w) w) = w"
  by (simp add: vscale_vscale)

subsection \<open>Linear combinations\<close>

lemma combine_Nil [simp]: "combine N [] qs = zeros N" "combine N ys [] = zeros N"
  by (cases qs; simp) (cases ys; simp)

lemma length_combine_all:
  "list_all (\<lambda>q. length q = N) qs \<Longrightarrow> length (combine N ys qs) = N"
  by (rule length_combine)

lemma combine_append:
  assumes "length ys = length qs" "list_all (\<lambda>q. length q = N) (qs @ qs')"
  shows "combine N (ys @ ys') (qs @ qs') = vadd (combine N ys qs) (combine N ys' qs')"
  using assms
proof (induction ys qs rule: list_induct2)
  case Nil
  then show ?case by (simp add: length_combine)
next
  case (Cons y ys q qs)
  then show ?case by (simp add: vadd_assoc)
qed

lemma combine_snoc:
  assumes "length ys = length qs" "list_all (\<lambda>q. length q = N) qs" "length q = N"
  shows "combine N (ys @ [y]) (qs @ [q]) = vadd (combine N ys qs) (vscale y q)"
  using combine_append [of ys qs N "[q]" "[y]"] assms by simp

lemma combine_take:
  assumes "length ys \<le> length qs"
  shows "combine N ys qs = combine N ys (take (length ys) qs)"
  using assms
proof (induction N ys qs rule: combine.induct)
  case (1 N y ys q qs)
  then show ?case by simp
qed simp_all

lemma combine_truncate:
  assumes "length ys \<le> length qs"
  shows "combine N ys (qs @ qs') = combine N ys qs"
  using combine_take [of ys "qs @ qs'" N] combine_take [of ys qs N] assms by simp

lemma combine_vadd:
  assumes "length ys = length zs" "list_all (\<lambda>q. length q = N) qs"
  shows "combine N (vadd ys zs) qs = vadd (combine N ys qs) (combine N zs qs)"
  using assms
proof (induction ys zs arbitrary: qs rule: list_induct2)
  case Nil
  then show ?case by simp
next
  case (Cons y ys z zs)
  show ?case
  proof (cases qs)
    case Nil
    then show ?thesis by simp
  next
    case (Cons q qs')
    with Cons.prems have "list_all (\<lambda>q. length q = N) qs'" by simp
    from Cons.IH [OF this] Cons show ?thesis
      by (simp add: vscale_add vadd_assoc vadd_left_commute)
  qed
qed

lemma combine_vscale: "combine N (vscale a ys) qs = vscale a (combine N ys qs)"
  using combine_scaled [of N a ys qs] by (simp add: vscale_def)

lemma linear_on_length: "linear_on N F \<Longrightarrow> length v = N \<Longrightarrow> length (F v) = N"
  unfolding linear_on_def by blast

lemma linear_on_vadd:
  "linear_on N F \<Longrightarrow> length u = N \<Longrightarrow> length v = N \<Longrightarrow> F (vadd u v) = vadd (F u) (F v)"
  unfolding linear_on_def by blast

lemma linear_on_vscale:
  "linear_on N F \<Longrightarrow> length v = N \<Longrightarrow> F (vscale a v) = vscale a (F v)"
  unfolding linear_on_def by blast

lemma linear_on_vsub:
  assumes "linear_on N F" "length u = N" "length v = N"
  shows "F (vsub u v) = vsub (F u) (F v)"
  using assms
  by (simp add: vsub_eq_vadd linear_on_vadd linear_on_vscale)

lemma linear_on_combine:
  assumes lin: "linear_on N F" and all: "list_all (\<lambda>q. length q = N) qs"
  shows "F (combine N ys qs) = combine N ys (map F qs)"
  using all
proof (induction ys arbitrary: qs)
  case Nil
  then show ?case by (simp add: linear_on_zeros [OF lin])
next
  case (Cons y ys)
  show ?case
  proof (cases qs)
    case Nil
    then show ?thesis by (simp add: linear_on_zeros [OF lin])
  next
    case (Cons q qs')
    with Cons.prems have q: "length q = N" and qs: "list_all (\<lambda>q. length q = N) qs'"
      by simp_all
    have "F (vadd (vscale y q) (combine N ys qs')) =
        vadd (F (vscale y q)) (F (combine N ys qs'))"
      by (rule linear_on_vadd [OF lin]) (simp_all add: q length_combine [OF qs])
    with Cons.IH [OF qs] linear_on_vscale [OF lin q] Cons show ?thesis
      by simp
  qed
qed

lemma combine_vsub:
  assumes "length ys = length zs" "list_all (\<lambda>q. length q = N) qs"
  shows "combine N (vsub ys zs) qs = vsub (combine N ys qs) (combine N zs qs)"
  using assms
  by (simp add: vsub_eq_vadd combine_vadd combine_vscale)

subsection \<open>Back-substitution solves the triangular system\<close>

lemma length_back_substitute_rev: "length (back_substitute_rev cols z) = length cols"
  by (induction cols arbitrary: z) (simp_all add: Let_def)

lemma triangular_rev_length:
  "triangular_rev cols \<Longrightarrow> col \<in> set cols \<Longrightarrow> length col \<le> length cols"
  by (induction cols) auto

lemma back_substitute_rev_solves:
  assumes "triangular_rev cols" "list_all (\<lambda>col. last col \<noteq> 0) cols"
    and "length z = length cols" "length us = length cols" "list_all (\<lambda>u. length u = N) us"
  shows "combine N (back_substitute_rev cols z) (map (\<lambda>col. combine N col us) (rev cols)) =
         combine N z us"
  using assms
proof (induction cols arbitrary: z us)
  case Nil
  then show ?case by simp
next
  case (Cons col cols)
  define y where "y = (if last col = 0 then 0 else last z / last col)"
  define zr where "zr = map2 (\<lambda>zi ci. zi - y * ci) (butlast z) (butlast col)"
  define us' where "us' = butlast us"
  define u where "u = last us"
  define ys where "ys = back_substitute_rev cols zr"
  from Cons.prems have ne: "col \<noteq> []" "z \<noteq> []" "us \<noteq> []"
    by auto
  then have us: "us = us' @ [u]" and z: "z = butlast z @ [last z]"
    and col: "col = butlast col @ [last col]"
    by (simp_all add: us'_def u_def)
  from Cons.prems have len: "length us' = length cols" "length (butlast z) = length cols"
    "length (butlast col) = length cols"
    by (simp_all add: us'_def)
  have "list_all (\<lambda>u. length u = N) (us' @ [u])"
    using Cons.prems(5) us by simp
  then have all: "list_all (\<lambda>u. length u = N) us'" and u: "length u = N"
    by simp_all
  from Cons.prems have piv: "last col \<noteq> 0" and tri: "triangular_rev cols"
    and pivs: "list_all (\<lambda>col. last col \<noteq> 0) cols"
    by simp_all
  have zr: "zr = vsub (butlast z) (vscale y (butlast col))"
    by (simp add: zr_def vsub_def vscale_def zip_map2 split_def)
  have lzr: "length zr = length cols"
    using Cons.prems by (simp add: zr)
  have shorter: "map (\<lambda>c. combine N c us) (rev cols) = map (\<lambda>c. combine N c us') (rev cols)"
  proof (rule map_cong [OF refl])
    fix c assume "c \<in> set (rev cols)"
    with triangular_rev_length [OF tri, of c] len have "length c \<le> length us'"
      by simp
    then show "combine N c us = combine N c us'"
      unfolding us by (rule combine_truncate)
  qed
  have IH: "combine N ys (map (\<lambda>c. combine N c us') (rev cols)) = combine N zr us'"
    unfolding ys_def by (rule Cons.IH [OF tri pivs lzr len(1) all])
  have fcol: "combine N col us =
      vadd (combine N (butlast col) us') (vscale (last col) u)"
    using combine_snoc [of "butlast col" us' N u "last col"] len all u col us
    by simp
  have lall: "list_all (\<lambda>q. length q = N) (map (\<lambda>c. combine N c us') (rev cols))"
    by (simp add: list_all_iff length_combine [OF all])
  have "back_substitute_rev (col # cols) z = ys @ [y]"
    by (simp add: ys_def zr_def y_def Let_def)
  then have "combine N (back_substitute_rev (col # cols) z)
        (map (\<lambda>c. combine N c us) (rev (col # cols))) =
      combine N (ys @ [y]) (map (\<lambda>c. combine N c us') (rev cols) @ [combine N col us])"
    by (simp add: shorter)
  also have "\<dots> = vadd (combine N ys (map (\<lambda>c. combine N c us') (rev cols)))
      (vscale y (combine N col us))"
    by (rule combine_snoc)
      (simp_all add: ys_def length_back_substitute_rev lall length_combine Cons.prems)
  also have "\<dots> = vadd (combine N zr us')
      (vscale y (vadd (combine N (butlast col) us') (vscale (last col) u)))"
    by (simp add: IH fcol)
  also have "\<dots> = vadd (combine N (butlast z) us') (vscale (last z) u)"
  proof (rule vec_eqI [of _ N])
    have l1: "length (combine N (butlast z) us') = N" "length (combine N (butlast col) us') = N"
      "length (combine N zr us') = N"
      by (simp_all add: length_combine [OF all])
    have c: "combine N zr us' =
        vsub (combine N (butlast z) us') (vscale y (combine N (butlast col) us'))"
      using combine_vsub [of "butlast z" "vscale y (butlast col)" N us'] len all
      by (simp add: zr combine_vscale)
    show "length (vadd (combine N zr us')
        (vscale y (vadd (combine N (butlast col) us') (vscale (last col) u)))) = N"
      by (simp add: l1 u)
    show "length (vadd (combine N (butlast z) us') (vscale (last z) u)) = N"
      by (simp add: l1 u)
    fix i assume "i < N"
    with piv show "vadd (combine N zr us')
        (vscale y (vadd (combine N (butlast col) us') (vscale (last col) u))) ! i =
        vadd (combine N (butlast z) us') (vscale (last z) u) ! i"
      unfolding c by (simp add: l1 u y_def algebra_simps)
  qed
  also have "\<dots> = combine N z us"
    using combine_snoc [of "butlast z" us' N u "last z"] len all u z us
    by simp
  finally show ?case .
qed

section \<open>Gram-Schmidt and orthonormal lists\<close>

lemma orthonormal_append:
  "orthonormal (qs @ [q]) \<longleftrightarrow>
     orthonormal qs \<and> dot q q = 1 \<and> list_all (\<lambda>p. dot p q = 0) qs"
  by (induction qs) auto

lemma orthogonalize_Cons:
  "orthogonalize w (q # qs) =
     (dot w q # fst (orthogonalize (vsub w (vscale (dot w q) q)) qs),
      snd (orthogonalize (vsub w (vscale (dot w q) q)) qs))"
  by (simp add: Let_def split: prod.splits)

lemma orthogonalize_decompose:
  assumes "length w0 = N" "list_all (\<lambda>q. length q = N) qs"
  shows "w0 = vadd (combine N (fst (orthogonalize w0 qs)) qs) (snd (orthogonalize w0 qs))"
  using assms
proof (induction qs arbitrary: w0)
  case Nil
  then show ?case by simp
next
  case (Cons q qs)
  define h where "h = dot w0 q"
  define w1 where "w1 = vsub w0 (vscale h q)"
  from Cons.prems have q: "length q = N" and qs: "list_all (\<lambda>q. length q = N) qs"
    by simp_all
  have w1: "length w1 = N"
    by (simp add: w1_def Cons.prems q)
  have step: "orthogonalize w0 (q # qs) =
      (h # fst (orthogonalize w1 qs), snd (orthogonalize w1 qs))"
    by (simp add: h_def w1_def orthogonalize_Cons del: orthogonalize.simps)
  note IH = Cons.IH [OF w1 qs]
  have lens: "length (combine N (fst (orthogonalize w1 qs)) qs) = N"
    "length (snd (orthogonalize w1 qs)) = N"
    using length_orthogonalize [OF w1 qs] by (simp_all add: length_combine [OF qs])
  have "vadd (vadd (vscale h q) (combine N (fst (orthogonalize w1 qs)) qs))
      (snd (orthogonalize w1 qs)) = vadd (vscale h q) w1"
    using IH by (simp add: vadd_assoc)
  also have "\<dots> = w0"
    by (rule vec_eqI [of _ N]) (simp_all add: w1_def q Cons.prems)
  finally show ?case
    unfolding step by simp
qed

lemma orthogonalize_keeps_orthogonal:
  assumes "list_all (\<lambda>p. dot q p = 0) qs" "dot w q = 0"
    and "length w = N" "length q = N" "list_all (\<lambda>p. length p = N) qs"
  shows "dot (snd (orthogonalize w qs)) q = 0"
  using assms
proof (induction qs arbitrary: w)
  case Nil
  then show ?case by simp
next
  case (Cons p qs)
  define w1 where "w1 = vsub w (vscale (dot w p) p)"
  from Cons.prems have p: "length p = N" "dot q p = 0" by simp_all
  have "dot w1 q = dot w q - dot w p * dot p q"
    by (simp add: w1_def dot_vsub_left dot_vscale_left Cons.prems p)
  with Cons.prems p have z: "dot w1 q = 0"
    by (simp add: dot_commute)
  have l: "length w1 = N"
    by (simp add: w1_def Cons.prems p)
  from Cons.IH [OF _ z l] Cons.prems have "dot (snd (orthogonalize w1 qs)) q = 0"
    by simp
  then show ?case
    by (simp add: w1_def orthogonalize_Cons del: orthogonalize.simps)
qed

lemma orthogonalize_orthogonal:
  assumes "orthonormal qs" "length w = N" "list_all (\<lambda>p. length p = N) qs"
  shows "list_all (\<lambda>p. dot (snd (orthogonalize w qs)) p = 0) qs"
  using assms
proof (induction qs arbitrary: w)
  case Nil
  then show ?case by simp
next
  case (Cons q qs)
  define w1 where "w1 = vsub w (vscale (dot w q) q)"
  from Cons.prems have q: "length q = N" "dot q q = 1" "list_all (\<lambda>p. dot q p = 0) qs"
    and qs: "orthonormal qs" "list_all (\<lambda>p. length p = N) qs"
    by simp_all
  have l: "length w1 = N"
    by (simp add: w1_def Cons.prems q)
  have "dot w1 q = dot w q - dot w q * dot q q"
    by (simp add: w1_def dot_vsub_left dot_vscale_left Cons.prems q)
  with q have z: "dot w1 q = 0" by simp
  have "dot (snd (orthogonalize w1 qs)) q = 0"
    by (rule orthogonalize_keeps_orthogonal [OF q(3) z l q(1) qs(2)])
  moreover have "list_all (\<lambda>p. dot (snd (orthogonalize w1 qs)) p = 0) qs"
    by (rule Cons.IH [OF qs(1) l qs(2)])
  ultimately show ?case
    by (simp add: w1_def orthogonalize_Cons del: orthogonalize.simps)
qed

lemma orthogonalize_coefficients:
  assumes "orthonormal qs" "length w = N" "list_all (\<lambda>p. length p = N) qs"
  shows "fst (orthogonalize w qs) = map (dot w) qs"
  using assms
proof (induction qs arbitrary: w)
  case Nil
  then show ?case by simp
next
  case (Cons q qs)
  define w1 where "w1 = vsub w (vscale (dot w q) q)"
  from Cons.prems have q: "length q = N" "list_all (\<lambda>p. dot q p = 0) qs"
    and qs: "orthonormal qs" "list_all (\<lambda>p. length p = N) qs"
    by simp_all
  have l: "length w1 = N"
    by (simp add: w1_def Cons.prems q)
  have "map (dot w1) qs = map (dot w) qs"
  proof (rule map_cong [OF refl])
    fix p assume "p \<in> set qs"
    with q(2) qs(2) have "dot q p = 0" "length p = N"
      by (simp_all add: list_all_iff)
    then show "dot w1 p = dot w p"
      by (simp add: w1_def dot_vsub_left dot_vscale_left Cons.prems q)
  qed
  with Cons.IH [OF qs(1) l qs(2)] show ?case
    by (simp add: w1_def orthogonalize_Cons del: orthogonalize.simps)
qed

lemma orthogonalize_pythagoras:
  assumes "list_all (\<lambda>p. dot p p = 1) qs" "length w = N" "list_all (\<lambda>p. length p = N) qs"
  shows "dot w w = (\<Sum>h\<leftarrow>fst (orthogonalize w qs). h\<^sup>2) +
         dot (snd (orthogonalize w qs)) (snd (orthogonalize w qs))"
  using assms
proof (induction qs arbitrary: w)
  case Nil
  then show ?case by simp
next
  case (Cons q qs)
  define h where "h = dot w q"
  define w1 where "w1 = vsub w (vscale h q)"
  from Cons.prems have q: "length q = N" "dot q q = 1"
    and qs: "list_all (\<lambda>p. dot p p = 1) qs" "list_all (\<lambda>p. length p = N) qs"
    by simp_all
  have l: "length w1 = N"
    by (simp add: w1_def Cons.prems q)
  have "dot w1 w1 = dot w w - h * dot q w - h * (dot w q - h * dot q q)"
    by (simp add: w1_def dot_vsub_left dot_vsub_right dot_vscale_left dot_vscale_right
        Cons.prems q)
  then have "dot w1 w1 = dot w w - h\<^sup>2"
    by (simp add: q h_def dot_commute power2_eq_square)
  with Cons.IH [OF qs(1) l qs(2)] show ?case
    by (simp add: w1_def h_def orthogonalize_Cons del: orthogonalize.simps)
qed

lemma dot_nth:
  assumes "length u = N" "length v = N"
  shows "dot u v = (\<Sum>i<N. u ! i * v ! i)"
proof -
  have "dot u v = (\<Sum>i = 0..<length (map2 (*) u v). map2 (*) u v ! i)"
    unfolding dot_def by (rule sum_list_sum_nth)
  also have "\<dots> = (\<Sum>i = 0..<N. u ! i * v ! i)"
    using assms by (intro sum.cong) simp_all
  finally show ?thesis
    by (simp add: atLeast0LessThan)
qed

lemma dot_unit_vector:
  assumes "length q = N" "j < N"
  shows "dot ((zeros N)[j := 1]) q = q ! j"
proof -
  have "dot ((zeros N)[j := 1]) q = (\<Sum>i<N. (zeros N)[j := 1] ! i * q ! i)"
    using assms by (intro dot_nth) simp_all
  also have "\<dots> = (\<Sum>i<N. if i = j then q ! i else 0)"
    by (intro sum.cong) (simp_all add: nth_list_update)
  also have "\<dots> = q ! j"
    using assms by simp
  finally show ?thesis .
qed

lemma orthonormal_unit: "orthonormal qs \<Longrightarrow> list_all (\<lambda>p. dot p p = 1) qs"
  by (induction qs) simp_all

lemma orthonormal_coordinate_sum:
  assumes "orthonormal qs" "list_all (\<lambda>p. length p = N) qs" "j < N"
  shows "(\<Sum>q\<leftarrow>qs. (q ! j)\<^sup>2) \<le> 1"
proof -
  let ?e = "(zeros N)[j := 1]"
  have e: "length ?e = N" by simp
  have "dot ?e ?e = ?e ! j"
    by (rule dot_unit_vector [OF e assms(3)])
  then have one: "dot ?e ?e = 1"
    using assms(3) by simp
  have "fst (orthogonalize ?e qs) = map (dot ?e) qs"
    by (rule orthogonalize_coefficients [OF assms(1) e assms(2)])
  also have "\<dots> = map (\<lambda>q. q ! j) qs"
  proof (rule map_cong [OF refl])
    fix q assume "q \<in> set qs"
    with assms(2) have "length q = N" by (simp add: list_all_iff)
    then show "dot ?e q = q ! j"
      by (rule dot_unit_vector [OF _ assms(3)])
  qed
  finally have hs: "fst (orthogonalize ?e qs) = map (\<lambda>q. q ! j) qs" .
  from orthogonalize_pythagoras [OF orthonormal_unit [OF assms(1)] e assms(2)]
  have "1 = (\<Sum>q\<leftarrow>qs. (q ! j)\<^sup>2) +
      dot (snd (orthogonalize ?e qs)) (snd (orthogonalize ?e qs))"
    by (simp add: one hs comp_def)
  with dot_self_nonneg [of "snd (orthogonalize ?e qs)"] show ?thesis
    by linarith
qed

lemma sum_list_sum_swap:
  "(\<Sum>q\<leftarrow>qs. \<Sum>j<N. f q j) = (\<Sum>j<N. \<Sum>q\<leftarrow>qs. f q j)" for f :: "'a \<Rightarrow> nat \<Rightarrow> real"
  by (induction qs) (simp_all add: sum.distrib)

lemma orthonormal_length_le:
  assumes "orthonormal qs" "list_all (\<lambda>p. length p = N) qs"
  shows "length qs \<le> N"
proof -
  have "real (length qs) = (\<Sum>q\<leftarrow>qs. dot q q)"
    using orthonormal_unit [OF assms(1)]
    by (induction qs) simp_all
  also have "\<dots> = (\<Sum>q\<leftarrow>qs. \<Sum>j<N. (q ! j)\<^sup>2)"
  proof (rule arg_cong [where f = sum_list], rule map_cong [OF refl])
    fix q assume "q \<in> set qs"
    with assms(2) have "length q = N" by (simp add: list_all_iff)
    then show "dot q q = (\<Sum>j<N. (q ! j)\<^sup>2)"
      by (simp add: dot_nth power2_eq_square)
  qed
  also have "\<dots> = (\<Sum>j<N. \<Sum>q\<leftarrow>qs. (q ! j)\<^sup>2)"
    by (rule sum_list_sum_swap)
  also have "\<dots> \<le> (\<Sum>j<N. 1)"
    by (intro sum_mono orthonormal_coordinate_sum [OF assms]) simp
  finally show ?thesis
    by simp
qed

section \<open>Givens rotations\<close>

lemma apply_rotations_untouched:
  "length rots < length h \<Longrightarrow> apply_rotations rots (h @ xs) = apply_rotations rots h @ xs"
proof (induction rots arbitrary: h)
  case Nil
  then show ?case by (cases h) simp_all
next
  case (Cons cs rots)
  then obtain a b h' where h: "h = a # b # h'"
    by (cases h; cases "tl h") auto
  with Cons.prems have "length rots < length ((fst cs * b - snd cs * a) # h')"
    by simp
  from Cons.IH [OF this] h show ?case
    by simp
qed

lemma apply_rotations_snoc:
  assumes "length h = Suc (length rots)"
  shows "apply_rotations (rots @ [cs]) (h @ [x]) =
     butlast (apply_rotations rots h) @
       [fst cs * last (apply_rotations rots h) + snd cs * x,
        fst cs * x - snd cs * last (apply_rotations rots h)]"
  using assms
proof (induction rots arbitrary: h)
  case Nil
  then obtain a where "h = [a]"
    by (cases h) auto
  then show ?case by simp
next
  case (Cons r rots)
  then obtain a b h' where h: "h = a # b # h'"
    by (cases h; cases "tl h") auto
  let ?h1 = "(fst r * b - snd r * a) # h'"
  from Cons.prems h have l: "length ?h1 = Suc (length rots)"
    by simp
  then have ne: "apply_rotations rots ?h1 \<noteq> []"
    by (metis length_apply_rotations length_0_conv nat.distinct(1))
  from Cons.IH [OF l] h ne show ?case
    by simp
qed

lemma givens_unit: "(fst (givens a b))\<^sup>2 + (snd (givens a b))\<^sup>2 = 1"
proof (cases "a\<^sup>2 + b\<^sup>2 = 0")
  case True
  then show ?thesis by (simp add: givens_def)
next
  case False
  define d where "d = sqrt (a\<^sup>2 + b\<^sup>2)"
  have d2: "d\<^sup>2 = a\<^sup>2 + b\<^sup>2"
    by (simp add: d_def)
  with False have d0: "d \<noteq> 0" by auto
  have "(a / d)\<^sup>2 + (b / d)\<^sup>2 = (a\<^sup>2 + b\<^sup>2) / d\<^sup>2"
    by (simp add: power_divide add_divide_distrib)
  also have "\<dots> = 1"
    using False by (simp add: d2)
  finally show ?thesis
    using d0 by (simp add: givens_def Let_def d_def)
qed

lemma givens_eliminates:
  "fst (givens a b) * a + snd (givens a b) * b = sqrt (a\<^sup>2 + b\<^sup>2)"
  "fst (givens a b) * b - snd (givens a b) * a = 0"
proof -
  have nn: "0 \<le> a\<^sup>2 + b\<^sup>2" by simp
  show "fst (givens a b) * a + snd (givens a b) * b = sqrt (a\<^sup>2 + b\<^sup>2)"
  proof (cases "a\<^sup>2 + b\<^sup>2 = 0")
    case True
    then show ?thesis by (simp add: givens_def)
  next
    case False
    have "a / sqrt (a\<^sup>2 + b\<^sup>2) * a + b / sqrt (a\<^sup>2 + b\<^sup>2) * b =
        (a\<^sup>2 + b\<^sup>2) / sqrt (a\<^sup>2 + b\<^sup>2)"
      by (simp add: power2_eq_square add_divide_distrib)
    also have "\<dots> = sqrt (a\<^sup>2 + b\<^sup>2)"
      using nn False by (metis real_div_sqrt)
    finally show ?thesis
      using False by (simp add: givens_def Let_def)
  qed
  show "fst (givens a b) * b - snd (givens a b) * a = 0"
    by (cases "a\<^sup>2 + b\<^sup>2 = 0") (simp_all add: givens_def Let_def power2_eq_square
        add_nonneg_eq_0_iff)
qed

lemma givens_scaled:
  "sqrt (a\<^sup>2 + b\<^sup>2) \<noteq> 0 \<Longrightarrow>
   sqrt (a\<^sup>2 + b\<^sup>2) * fst (givens a b) = a \<and> sqrt (a\<^sup>2 + b\<^sup>2) * snd (givens a b) = b"
  by (simp add: givens_def Let_def)

lemma givens_breakdown:
  assumes "a \<noteq> 0"
  shows "snd (givens a 0) = 0" "(fst (givens a 0))\<^sup>2 = 1" "fst (givens a 0) * a = \<bar>a\<bar>"
  using assms givens_unit [of a 0] givens_eliminates(1) [of a 0]
  by (simp_all add: givens_def Let_def)

lemma rotate_scalars:
  fixes c s :: real
  assumes "c\<^sup>2 + s\<^sup>2 = 1"
  shows "(c * p + s * x) * (c * P + s * Q) + (c * x - s * p) * (c * Q - s * P) = p * P + x * Q"
proof -
  have "(c * p + s * x) * (c * P + s * Q) + (c * x - s * p) * (c * Q - s * P) =
      (c\<^sup>2 + s\<^sup>2) * (p * P + x * Q)"
    by (simp add: power2_eq_square algebra_simps)
  with assms show ?thesis by simp
qed

lemma rotate_pair:
  assumes "c\<^sup>2 + s\<^sup>2 = 1" "length P = N" "length Q = N"
  shows "vadd (vscale (c * p + s * x) (vadd (vscale c P) (vscale s Q)))
           (vscale (c * x - s * p) (vsub (vscale c Q) (vscale s P))) =
         vadd (vscale p P) (vscale x Q)"
proof (rule vec_eqI [of _ N])
  fix i assume "i < N"
  with assms(2,3) rotate_scalars [OF assms(1), of p x "P ! i" "Q ! i"]
  show "vadd (vscale (c * p + s * x) (vadd (vscale c P) (vscale s Q)))
           (vscale (c * x - s * p) (vsub (vscale c Q) (vscale s P))) ! i =
         vadd (vscale p P) (vscale x Q) ! i"
    by simp
qed (simp_all add: assms)

section \<open>The invariant of the Arnoldi process\<close>

lemma combine_pair:
  assumes "length u = N" "length v = N"
  shows "combine N [a, b] [u, v] = vadd (vscale a u) (vscale b v)"
  using assms by simp

lemma state_ok_triangular_short:
  assumes "state_ok N st" "col \<in> set (triangular st)"
  shows "length col \<le> length (triangular st)"
proof -
  from assms(2) obtain j where "j < length (triangular st)" "col = triangular st ! j"
    by (auto simp: in_set_conv_nth)
  with assms(1) show ?thesis
    by (simp add: state_ok_def)
qed

lemma arnoldi_inv_step:
  assumes inv: "arnoldi_inv N F r0 st us pend" and lin: "linear_on N F"
    and hl: "vnorm (snd (orthogonalize (F (last (basis st))) (basis st))) \<noteq> 0"
  shows "\<exists>us' pend'. arnoldi_inv N F r0 (arnoldi_step F st) us' pend'"
proof -
  define qs where "qs = basis st"
  define qk where "qk = last qs"
  define hs where "hs = fst (orthogonalize (F qk) qs)"
  define w where "w = snd (orthogonalize (F qk) qs)"
  define hl where "hl = vnorm w"
  define qn where "qn = vscale (1 / hl) w"
  define \<Omega> where "\<Omega> = apply_rotations (rotations st) hs"
  define p where "p = last \<Omega>"
  define c where "c = fst (givens p hl)"
  define s where "s = snd (givens p hl)"
  define d where "d = sqrt (p\<^sup>2 + hl\<^sup>2)"
  define uk where "uk = vadd (vscale c pend) (vscale s qn)"
  define pend' where "pend' = vsub (vscale c qn) (vscale s pend)"
  define k where "k = length (triangular st)"
  define \<gamma> where "\<gamma> = last (rhs st)"
  let ?st = "arnoldi_step F st"
  from inv have ok: "state_ok N st" and nb: "\<not> breakdown st" and on: "orthonormal qs"
    and piv: "list_all (\<lambda>col. last col \<noteq> 0) (triangular st)"
    and lus: "length us = k" and aus: "list_all (\<lambda>u. length u = N) us"
    and lpend: "length pend = N" and upend: "dot pend pend = 1"
    and perp: "\<And>v. length v = N \<Longrightarrow> list_all (\<lambda>q. dot v q = 0) qs \<Longrightarrow> dot v pend = 0"
    and res: "r0 = combine N (rhs st) (us @ [pend])"
    and img: "map F (butlast qs) = map (\<lambda>col. combine N col us) (triangular st)"
    and chg: "\<And>h. length h = length qs \<Longrightarrow>
        combine N h qs = combine N (apply_rotations (rotations st) h) (us @ [pend])"
    unfolding arnoldi_inv_def qs_def k_def by blast+
  from ok nb have ne: "qs \<noteq> []" and aqs: "list_all (\<lambda>q. length q = N) qs"
    and lrot: "length (rotations st) = k" and lqs: "length qs = Suc k"
    and lrhs: "length (rhs st) = Suc k"
    by (simp_all add: state_ok_def qs_def k_def)
  have lqk: "length qk = N"
    using ok by (simp add: qk_def qs_def last_basis_length)
  have lF: "length (F qk) = N"
    by (rule linear_on_length [OF lin lqk])
  from length_orthogonalize [OF lF aqs] have lw: "length w = N" and lhs: "length hs = Suc k"
    by (simp_all add: w_def hs_def lqs)
  have hl0: "hl \<noteq> 0"
    using hl by (simp add: hl_def w_def qk_def qs_def)
  have hlpos: "0 < hl"
    using hl0 vnorm_nonneg [of w] by (simp add: hl_def)
  have lqn: "length qn = N"
    by (simp add: qn_def lw)
  have w_qn: "w = vscale hl qn"
    using hl0 by (simp add: qn_def vscale_vscale)
  have uqn: "dot qn qn = 1"
  proof -
    have "vnorm qn = 1"
      unfolding qn_def hl_def using hl0 by (intro vnorm_unit) (simp add: hl_def)
    then show ?thesis
      using vnorm_squared [of qn] by simp
  qed
  have wperp: "list_all (\<lambda>q. dot w q = 0) qs"
    unfolding w_def by (rule orthogonalize_orthogonal [OF on lF aqs])
  then have qnperp: "list_all (\<lambda>q. dot qn q = 0) qs"
    by (simp add: qn_def dot_vscale_left list_all_iff)
  have qn_pend: "dot qn pend = 0"
    by (rule perp [OF lqn qnperp])
  have l\<Omega>: "length \<Omega> = Suc k"
    by (simp add: \<Omega>_def lhs)
  then have \<Omega>ne: "\<Omega> \<noteq> []" by auto
  then have \<Omega>: "\<Omega> = butlast \<Omega> @ [p]"
    by (simp add: p_def)
  have lb\<Omega>: "length (butlast \<Omega>) = k"
    by (simp add: l\<Omega>)
  have col: "apply_rotations (rotations st) (hs @ [hl]) = \<Omega> @ [hl]"
    unfolding \<Omega>_def by (rule apply_rotations_untouched) (simp add: lrot lhs)
  have cs: "c\<^sup>2 + s\<^sup>2 = 1"
    unfolding c_def s_def by (rule givens_unit)
  have dpos: "0 < d"
  proof -
    have "0 < p\<^sup>2 + hl\<^sup>2"
      using hlpos by (simp add: add_nonneg_pos)
    then show ?thesis by (simp add: d_def)
  qed
  have elim: "c * p + s * hl = d" "c * hl - s * p = 0"
    unfolding c_def s_def d_def by (rule givens_eliminates)+
  have dc: "d * c = p" "d * s = hl"
    using givens_scaled [of p hl] dpos hl0 by (simp_all add: d_def c_def s_def)
  have step: "?st =
      \<lparr>basis = qs @ [qn], hessenberg = hessenberg st @ [hs @ [hl]],
       rotations = rotations st @ [(c, s)],
       triangular = triangular st @ [butlast \<Omega> @ [d]],
       rhs = butlast (rhs st) @ [c * \<gamma>, - s * \<gamma>], breakdown = False\<rparr>"
    unfolding arnoldi_step_unfold Let_def
    using hl0 elim(1)
    by (simp add: qs_def [symmetric] qk_def [symmetric] hs_def [symmetric] w_def [symmetric]
        hl_def [symmetric] col qn_def p_def [symmetric] c_def s_def \<gamma>_def)
  have ok': "state_ok N ?st"
    using ok nb lF unfolding qk_def qs_def by (rule state_ok_arnoldi_step)
  have on': "orthonormal (qs @ [qn])"
    using on uqn qnperp by (simp add: orthonormal_append dot_commute)
  have piv': "list_all (\<lambda>col. last col \<noteq> 0) (triangular st @ [butlast \<Omega> @ [d]])"
    using piv dpos by simp
  have luk: "length uk = N" and lpend': "length pend' = N"
    by (simp_all add: uk_def pend'_def lpend lqn)
  have upend': "dot pend' pend' = 1"
  proof -
    have "dot pend' pend' = c\<^sup>2 * dot qn qn - 2 * (c * s) * dot qn pend + s\<^sup>2 * dot pend pend"
      by (simp add: pend'_def dot_vsub_left dot_vsub_right dot_vscale_left dot_vscale_right
          lpend lqn dot_commute [of pend qn] power2_eq_square algebra_simps)
    with cs show ?thesis
      by (simp add: uqn qn_pend upend)
  qed
  have perp': "dot v pend' = 0"
    if "length v = N" "list_all (\<lambda>q. dot v q = 0) (qs @ [qn])" for v
  proof -
    from that have "dot v pend = 0" "dot v qn = 0"
      using perp [of v] by simp_all
    then show ?thesis
      by (simp add: pend'_def dot_vsub_right dot_vscale_right lpend lqn)
  qed
  have rot: "vadd (vscale (c * a + s * x) uk) (vscale (c * x - s * a) pend') =
      vadd (vscale a pend) (vscale x qn)" for a x
    unfolding uk_def pend'_def by (rule rotate_pair [OF cs lpend lqn])
  have tail: "combine N (ys @ [a, b]) (us @ [uk, pend']) =
      vadd (combine N ys us) (vadd (vscale a uk) (vscale b pend'))" if "length ys = k" for ys a b
    using combine_append [of ys us N "[uk, pend']" "[a, b]"] that lus aus luk lpend'
    by (simp add: combine_pair)
  have head: "combine N (ys @ [a]) (us @ [pend]) = vadd (combine N ys us) (vscale a pend)"
    if "length ys = k" for ys a
    using combine_snoc [of ys us N pend a] that lus aus lpend by simp
  have res': "r0 = combine N (butlast (rhs st) @ [c * \<gamma>, - s * \<gamma>]) (us @ [uk, pend'])"
  proof -
    have g: "rhs st = butlast (rhs st) @ [\<gamma>]" and lg: "length (butlast (rhs st)) = k"
      using lrhs by (simp_all add: \<gamma>_def) (metis append_butlast_last_id length_0_conv nat.distinct(1))
    have "r0 = vadd (combine N (butlast (rhs st)) us) (vscale \<gamma> pend)"
      using res head [OF lg, of \<gamma>] g by simp
    also have "vscale \<gamma> pend = vadd (vscale (c * \<gamma>) uk) (vscale (- s * \<gamma>) pend')"
      using rot [of \<gamma> 0] lqn lpend by (simp add: vscale_zero)
    finally show ?thesis
      by (simp add: tail [OF lg])
  qed
  have Fqk: "F qk = combine N (butlast \<Omega> @ [d]) (us @ [uk])"
  proof -
    have "F qk = vadd (combine N hs qs) w"
      unfolding hs_def w_def by (rule orthogonalize_decompose [OF lF aqs])
    also have "combine N hs qs = combine N \<Omega> (us @ [pend])"
      unfolding \<Omega>_def by (rule chg) (simp add: lhs lqs)
    also have "\<dots> = vadd (combine N (butlast \<Omega>) us) (vscale p pend)"
      using head [OF lb\<Omega>, of p] \<Omega> by simp
    finally have "F qk = vadd (combine N (butlast \<Omega>) us)
        (vadd (vscale p pend) (vscale hl qn))"
      by (simp add: w_qn vadd_assoc)
    also have "vadd (vscale p pend) (vscale hl qn) = vscale d uk"
      using rot [of p hl] elim luk lpend' by (simp add: vscale_zero)
    also have "vadd (combine N (butlast \<Omega>) us) (vscale d uk) =
        combine N (butlast \<Omega> @ [d]) (us @ [uk])"
      using combine_snoc [of "butlast \<Omega>" us N uk d] lb\<Omega> lus aus luk by simp
    finally show ?thesis .
  qed
  have img': "map F (butlast (qs @ [qn])) =
      map (\<lambda>col. combine N col (us @ [uk])) (triangular st @ [butlast \<Omega> @ [d]])"
  proof -
    have "map (\<lambda>col. combine N col (us @ [uk])) (triangular st) =
        map (\<lambda>col. combine N col us) (triangular st)"
    proof (rule map_cong [OF refl])
      fix col assume "col \<in> set (triangular st)"
      from state_ok_triangular_short [OF ok this] have "length col \<le> length us"
        by (simp add: lus k_def)
      then show "combine N col (us @ [uk]) = combine N col us"
        by (rule combine_truncate)
    qed
    moreover have "qs = butlast qs @ [qk]"
      using ne by (simp add: qk_def)
    then have "map F qs = map F (butlast qs) @ [F qk]"
      by (metis list.simps(8,9) map_append)
    ultimately show ?thesis
      using img Fqk by simp
  qed
  have chg': "combine N h (qs @ [qn]) =
      combine N (apply_rotations (rotations st @ [(c, s)]) h) (us @ [uk, pend'])"
    if "length h = Suc (Suc k)" for h
  proof -
    define h0 where "h0 = butlast h"
    define x where "x = last h"
    define \<Omega>h where "\<Omega>h = apply_rotations (rotations st) h0"
    from that have h: "h = h0 @ [x]" and lh0: "length h0 = Suc k"
      by (simp_all add: h0_def x_def) (metis append_butlast_last_id length_0_conv nat.distinct(1))
    have l\<Omega>h: "length (butlast \<Omega>h) = k" and \<Omega>h: "\<Omega>h = butlast \<Omega>h @ [last \<Omega>h]"
      using lh0 by (simp_all add: \<Omega>h_def)
        (metis append_butlast_last_id length_apply_rotations length_0_conv nat.distinct(1))
    have "combine N h (qs @ [qn]) = vadd (combine N h0 qs) (vscale x qn)"
      unfolding h using combine_snoc [of h0 qs N qn x] lh0 lqs aqs lqn by simp
    also have "combine N h0 qs = combine N \<Omega>h (us @ [pend])"
      unfolding \<Omega>h_def by (rule chg) (simp add: lh0 lqs)
    also have "\<dots> = vadd (combine N (butlast \<Omega>h) us) (vscale (last \<Omega>h) pend)"
      using head [OF l\<Omega>h, of "last \<Omega>h"] \<Omega>h by simp
    finally have "combine N h (qs @ [qn]) = vadd (combine N (butlast \<Omega>h) us)
        (vadd (vscale (last \<Omega>h) pend) (vscale x qn))"
      by (simp add: vadd_assoc)
    also have "vadd (vscale (last \<Omega>h) pend) (vscale x qn) =
        vadd (vscale (c * last \<Omega>h + s * x) uk) (vscale (c * x - s * last \<Omega>h) pend')"
      by (rule rot [symmetric])
    also have "vadd (combine N (butlast \<Omega>h) us)
        (vadd (vscale (c * last \<Omega>h + s * x) uk) (vscale (c * x - s * last \<Omega>h) pend')) =
        combine N (butlast \<Omega>h @ [c * last \<Omega>h + s * x, c * x - s * last \<Omega>h]) (us @ [uk, pend'])"
      by (rule tail [OF l\<Omega>h, symmetric])
    also have "butlast \<Omega>h @ [c * last \<Omega>h + s * x, c * x - s * last \<Omega>h] =
        apply_rotations (rotations st @ [(c, s)]) h"
      unfolding h \<Omega>h_def using apply_rotations_snoc [of h0 "rotations st" "(c, s)" x] lh0 lrot
      by simp
    finally show ?thesis .
  qed
  have "arnoldi_inv N F r0 ?st (us @ [uk]) pend'"
    unfolding arnoldi_inv_def
    using ok' on' piv' lus aus luk lpend' upend' perp' res' img' chg'
    by (simp add: step k_def lqs)
  then show ?thesis by blast
qed

lemma state_ok_triangular_rev:
  assumes "state_ok N st"
  shows "triangular_rev (rev (triangular st))"
  using assms by (intro triangular_rev_rev) (simp add: state_ok_def)

lemma image_of_coefficients:
  assumes ok: "state_ok N st" and lin: "linear_on N F"
    and piv: "list_all (\<lambda>col. last col \<noteq> 0) (triangular st)"
    and lus: "length us = length (triangular st)" and aus: "list_all (\<lambda>u. length u = N) us"
    and img: "map F qs = map (\<lambda>col. combine N col us) (triangular st)"
    and aqs: "list_all (\<lambda>q. length q = N) qs"
    and lz: "length z = length (triangular st)"
  shows "F (combine N (back_substitute (triangular st) z) qs) = combine N z us"
proof -
  have "F (combine N (back_substitute (triangular st) z) qs) =
      combine N (back_substitute (triangular st) z) (map F qs)"
    by (rule linear_on_combine [OF lin aqs])
  also have "\<dots> = combine N (back_substitute_rev (rev (triangular st)) z)
      (map (\<lambda>col. combine N col us) (rev (rev (triangular st))))"
    by (simp add: img back_substitute_def)
  also have "\<dots> = combine N z us"
    using state_ok_triangular_rev [OF ok] piv lz lus aus
    by (intro back_substitute_rev_solves) simp_all
  finally show ?thesis .
qed

lemma residual_split:
  assumes lin: "linear_on N F" and lb: "length b = N" and lx0: "length x0 = N"
    and ldx: "length dx = N"
  shows "vsub b (F (vadd x0 dx)) = vsub (vsub b (F x0)) (F dx)"
proof -
  have l: "length (F x0) = N" "length (F dx) = N"
    by (simp_all add: linear_on_length [OF lin] lx0 ldx)
  have "F (vadd x0 dx) = vadd (F x0) (F dx)"
    by (rule linear_on_vadd [OF lin lx0 ldx])
  moreover have "vsub b (vadd (F x0) (F dx)) = vsub (vsub b (F x0)) (F dx)"
    by (rule vec_eqI [of _ N]) (simp_all add: l lb)
  ultimately show ?thesis by simp
qed

lemma arnoldi_inv_residual:
  assumes inv: "arnoldi_inv N F (vsub b (F x0)) st us pend" and lin: "linear_on N F"
    and lb: "length b = N" and lx0: "length x0 = N"
  shows "vnorm (vsub b (F (reconstruct N x0 None st))) = \<bar>last (rhs st)\<bar>"
proof -
  define k where "k = length (triangular st)"
  define y where "y = back_substitute (triangular st) (butlast (rhs st))"
  define \<gamma> where "\<gamma> = last (rhs st)"
  from inv have ok: "state_ok N st" and nb: "\<not> breakdown st"
    and piv: "list_all (\<lambda>col. last col \<noteq> 0) (triangular st)"
    and lus: "length us = k" and aus: "list_all (\<lambda>u. length u = N) us"
    and lpend: "length pend = N" and upend: "dot pend pend = 1"
    and res: "vsub b (F x0) = combine N (rhs st) (us @ [pend])"
    and img: "map F (butlast (basis st)) = map (\<lambda>col. combine N col us) (triangular st)"
    unfolding arnoldi_inv_def k_def by blast+
  from ok nb have ne: "basis st \<noteq> []" and aqs: "list_all (\<lambda>q. length q = N) (basis st)"
    and lqs: "length (basis st) = Suc k" and lrhs: "length (rhs st) = Suc k"
    by (simp_all add: state_ok_def k_def)
  have ly: "length y = k"
    by (simp add: y_def back_substitute_def length_back_substitute_rev k_def)
  have bqs: "basis st = butlast (basis st) @ [last (basis st)]"
    using ne by simp
  have abq: "list_all (\<lambda>q. length q = N) (butlast (basis st))"
    using aqs by (metis bqs list_all_append)
  have "combine N y (basis st) = combine N y (butlast (basis st) @ [last (basis st)])"
    using bqs by simp
  also have "\<dots> = combine N y (butlast (basis st))"
    by (rule combine_truncate) (simp add: ly lqs)
  finally have dx: "combine N y (basis st) = combine N y (butlast (basis st))" .
  have lg: "length (butlast (rhs st)) = k" and g: "rhs st = butlast (rhs st) @ [\<gamma>]"
    using lrhs by (simp_all add: \<gamma>_def)
      (metis append_butlast_last_id length_0_conv nat.distinct(1))
  have Fdx: "F (combine N y (butlast (basis st))) = combine N (butlast (rhs st)) us"
    unfolding y_def
    using ok lin piv lus aus img abq lg
    by (intro image_of_coefficients) (simp_all add: k_def)
  have r0: "vsub b (F x0) = vadd (combine N (butlast (rhs st)) us) (vscale \<gamma> pend)"
    using res g combine_snoc [of "butlast (rhs st)" us N pend \<gamma>] lg lus aus lpend
    by simp
  have lc: "length (combine N (butlast (rhs st)) us) = N"
    by (rule length_combine [OF aus])
  have "vsub b (F (reconstruct N x0 None st)) =
      vsub (vsub b (F x0)) (F (combine N y (butlast (basis st))))"
    unfolding reconstruct_def Let_def y_def [symmetric] dx
    by (simp add: residual_split [OF lin lb lx0] length_combine [OF abq])
  also have "\<dots> = vscale \<gamma> pend"
    unfolding Fdx r0 by (rule vec_eqI [of _ N]) (simp_all add: lc lpend)
  finally have "vnorm (vsub b (F (reconstruct N x0 None st))) = vnorm (vscale \<gamma> pend)"
    by simp
  also have "\<dots> = \<bar>\<gamma>\<bar> * vnorm pend"
    by (rule vnorm_vscale)
  also have "vnorm pend = 1"
    by (simp add: vnorm_def upend)
  finally show ?thesis
    by (simp add: \<gamma>_def)
qed

lemma dot_combine_orthogonal:
  assumes "list_all (\<lambda>q. dot v q = 0) qs" "list_all (\<lambda>q. length q = N) qs"
  shows "dot v (combine N t qs) = 0"
  using assms
proof (induction t arbitrary: qs)
  case Nil
  then show ?case by simp
next
  case (Cons y t)
  show ?case
  proof (cases qs)
    case Nil
    then show ?thesis by simp
  next
    case (Cons q qs')
    with Cons.prems have q: "dot v q = 0" "length q = N"
      and qs': "list_all (\<lambda>q. dot v q = 0) qs'" "list_all (\<lambda>q. length q = N) qs'"
      by simp_all
    have "dot v (vadd (vscale y q) (combine N t qs')) =
        dot v (vscale y q) + dot v (combine N t qs')"
      by (rule dot_vadd_right) (simp add: q length_combine [OF qs'(2)])
    with Cons.IH [OF qs'] q Cons show ?thesis
      by (simp add: dot_vscale_right)
  qed
qed

lemma arnoldi_inv_breakdown:
  assumes inv: "arnoldi_inv N F (vsub b (F x0)) st us pend" and lin: "linear_on N F"
    and inj: "\<And>v. length v = N \<Longrightarrow> F v = zeros N \<Longrightarrow> v = zeros N"
    and lb: "length b = N" and lx0: "length x0 = N"
    and hl: "vnorm (snd (orthogonalize (F (last (basis st))) (basis st))) = 0"
  shows "breakdown (arnoldi_step F st) \<and> last (rhs (arnoldi_step F st)) = 0 \<and>
         vsub b (F (reconstruct N x0 None (arnoldi_step F st))) = zeros N"
proof -
  define qs where "qs = basis st"
  define qk where "qk = last qs"
  define hs where "hs = fst (orthogonalize (F qk) qs)"
  define w where "w = snd (orthogonalize (F qk) qs)"
  define \<Omega> where "\<Omega> = apply_rotations (rotations st) hs"
  define p where "p = last \<Omega>"
  define c where "c = fst (givens p 0)"
  define s where "s = snd (givens p 0)"
  define k where "k = length (triangular st)"
  define \<gamma> where "\<gamma> = last (rhs st)"
  let ?st = "arnoldi_step F st"
  from inv have ok: "state_ok N st" and nb: "\<not> breakdown st" and on: "orthonormal qs"
    and piv: "list_all (\<lambda>col. last col \<noteq> 0) (triangular st)"
    and lus: "length us = k" and aus: "list_all (\<lambda>u. length u = N) us"
    and lpend: "length pend = N" and upend: "dot pend pend = 1"
    and res: "vsub b (F x0) = combine N (rhs st) (us @ [pend])"
    and img: "map F (butlast qs) = map (\<lambda>col. combine N col us) (triangular st)"
    and chg: "\<And>h. length h = length qs \<Longrightarrow>
        combine N h qs = combine N (apply_rotations (rotations st) h) (us @ [pend])"
    unfolding arnoldi_inv_def qs_def k_def by blast+
  from ok nb have ne: "qs \<noteq> []" and aqs: "list_all (\<lambda>q. length q = N) qs"
    and lrot: "length (rotations st) = k" and lqs: "length qs = Suc k"
    and lrhs: "length (rhs st) = Suc k"
    by (simp_all add: state_ok_def qs_def k_def)
  have lqk: "length qk = N"
    using ok by (simp add: qk_def qs_def last_basis_length)
  have lF: "length (F qk) = N"
    by (rule linear_on_length [OF lin lqk])
  from length_orthogonalize [OF lF aqs] have lw: "length w = N" and lhs: "length hs = Suc k"
    by (simp_all add: w_def hs_def lqs)
  have hl0: "vnorm w = 0"
    using hl by (simp add: w_def qk_def qs_def)
  then have w0: "w = zeros N"
    by (simp add: vnorm_zero_iff lw)
  have bqs: "qs = butlast qs @ [qk]"
    using ne by (simp add: qk_def)
  have abq: "list_all (\<lambda>q. length q = N) (butlast qs)"
    using aqs by (metis bqs list_all_append)
  have l\<Omega>: "length \<Omega> = Suc k"
    by (simp add: \<Omega>_def lhs)
  then have \<Omega>ne: "\<Omega> \<noteq> []" by auto
  then have \<Omega>: "\<Omega> = butlast \<Omega> @ [p]"
    by (simp add: p_def)
  have lb\<Omega>: "length (butlast \<Omega>) = k"
    by (simp add: l\<Omega>)
  have col: "apply_rotations (rotations st) (hs @ [0]) = \<Omega> @ [0]"
    unfolding \<Omega>_def by (rule apply_rotations_untouched) (simp add: lrot lhs)
  have head: "combine N (ys @ [a]) (us @ [v]) = vadd (combine N ys us) (vscale a v)"
    if "length ys = k" "length v = N" for ys a v
    using combine_snoc [of ys us N v a] that lus aus by simp
  have Fqk: "F qk = vadd (combine N (butlast \<Omega>) us) (vscale p pend)"
  proof -
    have "F qk = vadd (combine N hs qs) w"
      unfolding hs_def w_def by (rule orthogonalize_decompose [OF lF aqs])
    also have "\<dots> = combine N hs qs"
      by (simp add: w0 length_combine [OF aqs])
    also have "\<dots> = combine N \<Omega> (us @ [pend])"
      unfolding \<Omega>_def by (rule chg) (simp add: lhs lqs)
    also have "\<dots> = vadd (combine N (butlast \<Omega>) us) (vscale p pend)"
      using head [OF lb\<Omega> lpend, of p] \<Omega> by simp
    finally show ?thesis .
  qed
  have pne: "p \<noteq> 0"
  proof
    assume p0: "p = 0"
    define t where "t = back_substitute (triangular st) (butlast \<Omega>)"
    define v where "v = vsub qk (combine N t (butlast qs))"
    have lc: "length (combine N t (butlast qs)) = N"
      by (rule length_combine [OF abq])
    have lv: "length v = N"
      by (simp add: v_def lqk lc)
    have "F (combine N t (butlast qs)) = combine N (butlast \<Omega>) us"
      unfolding t_def using ok lin piv lus aus img abq lb\<Omega>
      by (intro image_of_coefficients) (simp_all add: k_def)
    also have "\<dots> = F qk"
      by (simp add: Fqk p0 vscale_zero lpend length_combine [OF aus])
    finally have "F v = vsub (F qk) (F qk)"
      by (simp add: v_def linear_on_vsub [OF lin lqk lc])
    then have "F v = zeros N"
      by (simp add: lF)
    then have v0: "v = zeros N"
      by (rule inj [OF lv])
    from on bqs have "orthonormal (butlast qs @ [qk])" by simp
    then have uq: "dot qk qk = 1" and perp: "list_all (\<lambda>q. dot q qk = 0) (butlast qs)"
      by (simp_all add: orthonormal_append)
    from perp have "list_all (\<lambda>q. dot qk q = 0) (butlast qs)"
      by (simp add: dot_commute)
    then have "dot qk (combine N t (butlast qs)) = 0"
      by (rule dot_combine_orthogonal [OF _ abq])
    then have "dot qk v = 1"
      by (simp add: v_def dot_vsub_right lqk lc uq)
    with v0 show False by simp
  qed
  have s0: "s = 0" and c2: "c\<^sup>2 = 1" and cp: "c * p = \<bar>p\<bar>"
    unfolding s_def c_def by (rule givens_breakdown [OF pne])+
  have gv: "givens p 0 = (c, s)"
    by (simp add: c_def s_def)
  have step: "?st =
      \<lparr>basis = qs, hessenberg = hessenberg st @ [hs @ [0]],
       rotations = rotations st @ [(c, s)],
       triangular = triangular st @ [butlast \<Omega> @ [\<bar>p\<bar>]],
       rhs = butlast (rhs st) @ [c * \<gamma>, 0], breakdown = True\<rparr>"
    unfolding arnoldi_step_unfold Let_def
    using hl0 cp s0 gv
    by (simp add: qs_def [symmetric] qk_def [symmetric] hs_def [symmetric] w_def [symmetric]
        col p_def [symmetric] \<gamma>_def)
  have ok': "state_ok N ?st"
    using ok nb lF unfolding qk_def qs_def by (rule state_ok_arnoldi_step)
  define uk where "uk = vscale c pend"
  have luk: "length uk = N"
    by (simp add: uk_def lpend)
  have puk: "vscale \<bar>p\<bar> uk = vscale p pend"
  proof -
    have "c * (c * p) = c\<^sup>2 * p" by (simp add: power2_eq_square)
    with c2 cp have e: "\<bar>p\<bar> * c = p" by (simp add: mult.commute)
    show ?thesis unfolding uk_def vscale_vscale e by (rule refl)
  qed
  have guk: "vscale (c * \<gamma>) uk = vscale \<gamma> pend"
  proof -
    have "c * \<gamma> * c = c\<^sup>2 * \<gamma>" by (simp add: power2_eq_square)
    with c2 have e: "c * \<gamma> * c = \<gamma>" by simp
    show ?thesis unfolding uk_def vscale_vscale e by (rule refl)
  qed
  have Fqk': "F qk = combine N (butlast \<Omega> @ [\<bar>p\<bar>]) (us @ [uk])"
    using head [OF lb\<Omega> luk, of "\<bar>p\<bar>"] Fqk puk by simp
  have img': "map F qs =
      map (\<lambda>col. combine N col (us @ [uk])) (triangular st @ [butlast \<Omega> @ [\<bar>p\<bar>]])"
  proof -
    have "map (\<lambda>col. combine N col (us @ [uk])) (triangular st) =
        map (\<lambda>col. combine N col us) (triangular st)"
    proof (rule map_cong [OF refl])
      fix col assume "col \<in> set (triangular st)"
      from state_ok_triangular_short [OF ok this] have "length col \<le> length us"
        by (simp add: lus k_def)
      then show "combine N col (us @ [uk]) = combine N col us"
        by (rule combine_truncate)
    qed
    moreover have "map F qs = map F (butlast qs) @ [F qk]"
      using bqs by (metis list.simps(8,9) map_append)
    ultimately show ?thesis
      using img Fqk' by simp
  qed
  have lg: "length (butlast (rhs st)) = k" and g: "rhs st = butlast (rhs st) @ [\<gamma>]"
    using lrhs by (simp_all add: \<gamma>_def)
      (metis append_butlast_last_id length_0_conv nat.distinct(1))
  have r0: "vsub b (F x0) = combine N (butlast (rhs st) @ [c * \<gamma>]) (us @ [uk])"
  proof -
    have "vsub b (F x0) = vadd (combine N (butlast (rhs st)) us) (vscale \<gamma> pend)"
      using res g head [OF lg lpend, of \<gamma>] by simp
    then show ?thesis
      using head [OF lg luk, of "c * \<gamma>"] guk by simp
  qed
  define y where "y = back_substitute (triangular ?st) (butlast (rhs ?st))"
  have tri': "triangular ?st = triangular st @ [butlast \<Omega> @ [\<bar>p\<bar>]]"
    and rhs': "butlast (rhs ?st) = butlast (rhs st) @ [c * \<gamma>]"
    and bas': "basis ?st = qs"
    by (simp_all add: step butlast_append)
  have "F (combine N y qs) = combine N (butlast (rhs ?st)) (us @ [uk])"
    unfolding y_def
  proof (rule image_of_coefficients [OF ok' lin])
    show "list_all (\<lambda>col. last col \<noteq> 0) (triangular ?st)"
      using piv pne by (simp add: tri')
    show "length (us @ [uk]) = length (triangular ?st)"
      by (simp add: tri' lus k_def)
    show "list_all (\<lambda>u. length u = N) (us @ [uk])"
      using aus luk by simp
    show "map F qs = map (\<lambda>col. combine N col (us @ [uk])) (triangular ?st)"
      by (simp only: tri' img')
    show "list_all (\<lambda>q. length q = N) qs"
      by (rule aqs)
    show "length (butlast (rhs ?st)) = length (triangular ?st)"
      unfolding rhs' tri' using lrhs by (simp add: k_def)
  qed
  then have Fdx: "F (combine N y qs) = vsub b (F x0)"
    by (simp only: rhs' r0)
  have "vsub b (F (reconstruct N x0 None ?st)) = vsub (vsub b (F x0)) (F (combine N y qs))"
    unfolding reconstruct_def Let_def y_def [symmetric] bas'
    by (simp add: residual_split [OF lin lb lx0] length_combine [OF aqs])
  also have "\<dots> = zeros N"
    unfolding Fdx by (simp add: lb linear_on_length [OF lin lx0])
  finally show ?thesis
    by (simp add: step)
qed

lemma arnoldi_inv_steps_bound:
  assumes "arnoldi_inv N F r0 st us pend"
  shows "Suc (length (rotations st)) \<le> N"
proof -
  from assms have ok: "state_ok N st" and nb: "\<not> breakdown st"
    and on: "orthonormal (basis st)"
    unfolding arnoldi_inv_def by blast+
  from ok nb have "length (basis st) = Suc (length (rotations st))"
    and "list_all (\<lambda>q. length q = N) (basis st)"
    by (simp_all add: state_ok_def)
  with orthonormal_length_le [OF on] show ?thesis by simp
qed

lemma gmres_loop_converges:
  assumes inv: "arnoldi_inv N F (vsub b (F x0)) st us pend" and lin: "linear_on N F"
    and inj: "\<And>v. length v = N \<Longrightarrow> F v = zeros N \<Longrightarrow> v = zeros N"
    and lb: "length b = N" and lx0: "length x0 = N" and tol: "0 \<le> tol"
    and fuel: "N \<le> length (rotations st) + n"
  shows "snd (gmres_loop n F tol st) = CONVERGED \<and>
         length (rotations (fst (gmres_loop n F tol st))) \<le> N \<and>
         vnorm (vsub b (F (reconstruct N x0 None (fst (gmres_loop n F tol st))))) =
           \<bar>last (rhs (fst (gmres_loop n F tol st)))\<bar> \<and>
         \<bar>last (rhs (fst (gmres_loop n F tol st)))\<bar> \<le> tol"
  using inv fuel
proof (induction n arbitrary: st us pend)
  case 0
  with arnoldi_inv_steps_bound [OF "0.prems"(1)] show ?case by simp
next
  case (Suc n)
  let ?st = "arnoldi_step F st"
  note bound = arnoldi_inv_steps_bound [OF Suc.prems(1)]
  have len: "length (rotations ?st) = Suc (length (rotations st))"
    by (rule length_rotations_arnoldi_step)
  show ?case
  proof (cases "vnorm (snd (orthogonalize (F (last (basis st))) (basis st))) = 0")
    case True
    from arnoldi_inv_breakdown [OF Suc.prems(1) lin inj lb lx0 True]
    have z: "last (rhs ?st) = 0" and r: "vsub b (F (reconstruct N x0 None ?st)) = zeros N"
      by simp_all
    from z tol have "gmres_loop (Suc n) F tol st = (?st, CONVERGED)"
      by (simp add: Let_def)
    with z r tol bound len show ?thesis
      by simp
  next
    case False
    from arnoldi_inv_step [OF Suc.prems(1) lin False] obtain us' pend' where
      inv': "arnoldi_inv N F (vsub b (F x0)) ?st us' pend'" by blast
    have r: "vnorm (vsub b (F (reconstruct N x0 None ?st))) = \<bar>last (rhs ?st)\<bar>"
      by (rule arnoldi_inv_residual [OF inv' lin lb lx0])
    show ?thesis
    proof (cases "\<bar>last (rhs ?st)\<bar> \<le> tol")
      case True
      then have "gmres_loop (Suc n) F tol st = (?st, CONVERGED)"
        by (simp add: Let_def)
      with True r bound len show ?thesis
        by simp
    next
      case nc: False
      from arnoldi_inv_steps_bound [OF inv'] len Suc.prems(2) have n: "n \<noteq> 0"
        by simp
      from inv' have "\<not> breakdown ?st"
        unfolding arnoldi_inv_def by blast
      with nc n have "gmres_loop (Suc n) F tol st = gmres_loop n F tol ?st"
        by (simp add: Let_def)
      moreover from Suc.prems(2) len have "N \<le> length (rotations ?st) + n"
        by simp
      ultimately show ?thesis
        using Suc.IH [OF inv'] by simp
    qed
  qed
qed

section \<open>Convergence of GMRES within the dimension\<close>

lemma effective_operator_None: "effective_operator A None = apply_fn A"
  by (rule ext) (simp add: effective_operator_def)

lemma arnoldi_inv_initial:
  assumes "length r0 = N" "vnorm r0 \<noteq> 0"
  shows "arnoldi_inv N F r0
     \<lparr>basis = [vscale (1 / vnorm r0) r0], hessenberg = [], rotations = [], triangular = [],
      rhs = [vnorm r0], breakdown = False\<rparr> [] (vscale (1 / vnorm r0) r0)"
proof -
  let ?q = "vscale (1 / vnorm r0) r0"
  have lq: "length ?q = N"
    by (simp add: assms)
  have "vnorm ?q = 1"
    by (rule vnorm_unit [OF assms(2)])
  then have uq: "dot ?q ?q = 1"
    using vnorm_squared [of ?q] by simp
  have r0: "r0 = combine N [vnorm r0] [?q]"
    using assms by (simp add: vscale_vscale)
  show ?thesis
    unfolding arnoldi_inv_def state_ok_def
    using lq uq r0 by simp
qed

lemma solve_converges:
  assumes conf: "conforming A b x0_opt None" and N: "N = snd (op_shape A)"
    and lin: "linear_on N (apply_fn A)"
    and inj: "\<And>v. length v = N \<Longrightarrow> apply_fn A v = zeros N \<Longrightarrow> v = zeros N"
    and tols: "0 \<le> atol solver" "0 \<le> rtol solver" and fuel: "N \<le> max_steps solver"
  shows "\<exists>res. solve solver A b x0_opt None = (iterations res, Inr res) \<and>
           status res = CONVERGED \<and> converged res \<and> iterations res \<le> N \<and>
           residual_norm res = vnorm (vsub b (apply_fn A (solution res))) \<and>
           residual_norm res \<le> atol solver + rtol solver * vnorm b"
proof -
  define x0 where "x0 = (case x0_opt of None \<Rightarrow> zeros (snd (op_shape A)) | Some x \<Rightarrow> x)"
  define r0 where "r0 = initial_residual A b x0 None"
  define tol where "tol = atol solver + rtol solver * vnorm b"
  have lx0: "length x0 = N"
    using conforming_x0_length [OF conf] by (simp add: x0_def N)
  from conf have lb: "length b = N"
    by (simp add: conforming_def N)
  have r0: "r0 = vsub b (apply_fn A x0)"
    by (simp add: r0_def initial_residual_def)
  have lr0: "length r0 = N"
    by (simp add: r0 lb linear_on_length [OF lin lx0])
  have tol0: "0 \<le> tol"
    using tols vnorm_nonneg [of b] by (simp add: tol_def)
  show ?thesis
  proof (cases "vnorm r0 \<le> tol")
    case True
    then have "solve solver A b x0_opt None =
        (0, Inr \<lparr>solution = x0, converged = True, iterations = 0,
                 residual_norm = vnorm r0, status = CONVERGED\<rparr>)"
      unfolding r0_def tol_def by (intro solve_init_converged [OF conf x0_def])
    with True show ?thesis
      by (simp add: r0 tol_def)
  next
    case False
    define st0 where "st0 = \<lparr>basis = [vscale (1 / vnorm r0) r0], hessenberg = [], rotations = [],
                triangular = [], rhs = [vnorm r0], breakdown = False\<rparr>"
    define st where "st = fst (gmres_loop (max_steps solver) (effective_operator A None) tol st0)"
    define stat where
      "stat = snd (gmres_loop (max_steps solver) (effective_operator A None) tol st0)"
    from False tol0 have "vnorm r0 \<noteq> 0" by auto
    from arnoldi_inv_initial [OF lr0 this, of "apply_fn A"]
    have inv: "arnoldi_inv N (apply_fn A) (vsub b (apply_fn A x0)) st0 [] (vscale (1 / vnorm r0) r0)"
      by (simp add: st0_def r0)
    have "N \<le> length (rotations st0) + max_steps solver"
      using fuel by simp
    from gmres_loop_converges [OF inv lin inj lb lx0 tol0 this]
    have out: "stat = CONVERGED" "length (rotations st) \<le> N"
      "vnorm (vsub b (apply_fn A (reconstruct N x0 None st))) = \<bar>last (rhs st)\<bar>"
      "\<bar>last (rhs st)\<bar> \<le> tol"
      by (simp_all add: st_def stat_def effective_operator_None)
    have "solve solver A b x0_opt None =
        (length (rotations st),
         Inr \<lparr>solution = reconstruct (snd (op_shape A)) x0 None st,
              converged = (stat = CONVERGED), iterations = length (rotations st),
              residual_norm = \<bar>last (rhs st)\<bar>, status = stat\<rparr>)"
      using False unfolding st_def stat_def
      by (intro solve_iterating [OF conf x0_def r0_def tol_def _ st0_def]) simp_all
    with out show ?thesis
      by (simp add: N tol_def)
  qed
qed

lemma spd_square: "symmetric_positive_definite rows \<Longrightarrow>
    op_shape (MatrixLinearOperator rows tgs) = (length rows, length rows)"
  by (cases rows) (simp_all add: symmetric_positive_definite_def MatrixLinearOperator_def)

lemma spd_injective:
  assumes "symmetric_positive_definite rows" "length v = length rows"
    and "matvec rows v = zeros (length rows)"
  shows "v = zeros (length rows)"
proof (rule ccontr)
  assume "v \<noteq> zeros (length rows)"
  with assms(1,2) have "0 < dot v (matvec rows v)"
    unfolding symmetric_positive_definite_def by blast
  with assms(3) show False by simp
qed

lemma spd_example: "symmetric_positive_definite [[3, 4], [4, 6]]"
proof -
  have sym: "[[3, 4], [4, 6 :: real]] ! i ! j = [[3, 4], [4, 6]] ! j ! i" if "i < 2" "j < 2" for i j
  proof -
    from that have "i = 0 \<or> i = 1" "j = 0 \<or> j = 1" by auto
    then show ?thesis by auto
  qed
  have pos: "0 < dot x (matvec [[3, 4], [4, 6]] x)" if "length x = 2" "x \<noteq> zeros 2" for x
  proof -
    from that(1) obtain u v where x: "x = [u, v]"
      by (auto simp: length_Suc_conv numeral_2_eq_2)
    have q: "dot x (matvec [[3, 4], [4, 6]] x) = 3 * (u + 4 / 3 * v)\<^sup>2 + 2 / 3 * v\<^sup>2"
      by (simp add: x matvec_def power2_eq_square algebra_simps)
    show ?thesis
    proof (cases "v = 0")
      case True
      with that(2) x have "u \<noteq> 0"
        by (simp add: zeros_def numeral_2_eq_2)
      with True show ?thesis by (simp add: q)
    next
      case False
      then have "0 < 2 / 3 * v\<^sup>2" by simp
      moreover have "0 \<le> 3 * (u + 4 / 3 * v)\<^sup>2" by simp
      ultimately show ?thesis unfolding q by linarith
    qed
  qed
  have len: "length [[3, 4], [4, 6 :: real]] = 2"
    by simp
  have a: "list_all (\<lambda>row. length row = length [[3, 4], [4, 6 :: real]]) [[3, 4], [4, 6 :: real]]"
    by simp
  have b: "\<forall>i<length [[3, 4], [4, 6 :: real]]. \<forall>j<length [[3, 4], [4, 6 :: real]].
      [[3, 4], [4, 6 :: real]] ! i ! j = [[3, 4], [4, 6]] ! j ! i"
    unfolding len using sym by blast
  have c: "\<forall>x. length x = length [[3, 4], [4, 6 :: real]] \<and> x \<noteq> zeros (length [[3, 4], [4, 6 :: real]])
      \<longrightarrow> 0 < dot x (matvec [[3, 4], [4, 6]] x)"
    unfolding len using pos by blast
  show ?thesis
    unfolding symmetric_positive_definite_def using a b c by blast
qed

text \<open>
  C10, counterexample. The matrix with the rows \<open>(3, 4)\<close> and \<open>(4, 6)\<close> is symmetric
  positive-definite of dimension 2. With \<open>b = (1, 0)\<close>, \<open>atol = rtol = 1e-8\<close> and
  \<open>max_steps = 1\<close> the solve without preconditioner stops after its one iteration with
  the residual norm \<open>4/5\<close>, above the tolerance: it ends in MAX_STEPS_REACHED and never
  reaches the tolerance.
\<close>

theorem gmres_dimension_bound_counterexample:
  "symmetric_positive_definite [[3, 4], [4, 6]] \<and>
   GMRES (1 / 100000000) (1 / 100000000) 1 =
     Inr \<lparr>atol = 1 / 100000000, rtol = 1 / 100000000, max_steps = 1\<rparr> \<and>
   solve \<lparr>atol = 1 / 100000000, rtol = 1 / 100000000, max_steps = 1\<rparr>
     (MatrixLinearOperator [[3, 4], [4, 6]] []) [1, 0] None None =
     (1, Inr \<lparr>solution = [3 / 25, 0], converged = False, iterations = 1,
              residual_norm = 4 / 5, status = MAX_STEPS_REACHED\<rparr>) \<and>
   \<not> 4 / 5 \<le> 1 / 100000000 + 1 / 100000000 * vnorm [1, 0]"
proof -
  have "solve \<lparr>atol = 1 / 100000000, rtol = 1 / 100000000, max_steps = 1\<rparr>
     (MatrixLinearOperator [[3, 4], [4, 6]] []) [1, 0] None None =
     (1, Inr \<lparr>solution = [3 / 25, 0], converged = False, iterations = 1,
              residual_norm = 4 / 5, status = MAX_STEPS_REACHED\<rparr>)"
    by (simp add: solve_eval)
  moreover have "\<not> 4 / 5 \<le> 1 / 100000000 + 1 / 100000000 * vnorm [1, 0]"
    by (simp add: vnorm_def)
  ultimately show ?thesis
    using spd_example by (simp add: GMRES_def)
qed

text \<open>
  C10, as amended. For a symmetric positive-definite operator of dimension \<open>N\<close> built from
  a dense matrix, GMRES without preconditioning, with valid tolerances and an iteration
  budget \<open>max_steps\<close> of at least \<open>N\<close>, ends in CONVERGED after at most \<open>N\<close> iterations, in
  exact arithmetic and from any initial guess: the residual \<open>b - A x\<close> of the returned
  solution has the reported norm, which is at most \<open>atol + rtol * ||b||\<close>.
\<close>

theorem gmres_converges_within_dimension:
  assumes "symmetric_positive_definite rows"
    and "GMRES a r ms = Inr solver"
    and "int (length rows) \<le> ms"
    and "length b = length rows"
    and "case x0_opt of None \<Rightarrow> True | Some x \<Rightarrow> length x = length rows"
  shows "\<exists>res. solve solver (MatrixLinearOperator rows tgs) b x0_opt None =
             (iterations res, Inr res) \<and>
           status res = CONVERGED \<and> iterations res \<le> length rows \<and>
           residual_norm res = vnorm (vsub b (matvec rows (solution res))) \<and>
           vnorm (vsub b (matvec rows (solution res))) \<le> atol solver + rtol solver * vnorm b"
proof -
  let ?A = "MatrixLinearOperator rows tgs"
  let ?N = "length rows"
  have shp: "op_shape ?A = (?N, ?N)"
    by (rule spd_square [OF assms(1)])
  have F: "apply_fn ?A = matvec rows"
    by (simp add: MatrixLinearOperator_def)
  have conf: "conforming ?A b x0_opt None"
    using assms(4,5) by (simp add: conforming_def shp split: option.splits)
  have N: "?N = snd (op_shape ?A)"
    by (simp add: shp)
  have lin: "linear_on ?N (apply_fn ?A)"
    unfolding F by (rule linear_on_matvec) simp
  have inj: "v = zeros ?N" if "length v = ?N" "apply_fn ?A v = zeros ?N" for v
    using spd_injective [OF assms(1) that(1)] that(2) by (simp add: F)
  from assms(2) have tols: "0 \<le> atol solver" "0 \<le> rtol solver"
    and ms: "max_steps solver = nat ms"
    by (auto simp: GMRES_def split: if_splits)
  from assms(3) ms have fuel: "?N \<le> max_steps solver"
    by simp
  from solve_converges [OF conf N lin inj tols fuel] show ?thesis
    unfolding F by metis
qed

theorem gmres_converges_within_dimension_witness:
  "symmetric_positive_definite [[3, 4], [4, 6]] \<and>
   GMRES (1 / 100000000) (1 / 100000000) 2 =
     Inr \<lparr>atol = 1 / 100000000, rtol = 1 / 100000000, max_steps = 2\<rparr> \<and>
   int (length [[3, 4], [4, 6 :: real]]) \<le> 2 \<and>
   length [1, 0 :: real] = length [[3, 4], [4, 6 :: real]] \<and>
   (\<exists>res. solve \<lparr>atol = 1 / 100000000, rtol = 1 / 100000000, max_steps = 2\<rparr>
       (MatrixLinearOperator [[3, 4], [4, 6]] []) [1, 0] None None = (2, Inr res) \<and>
     solution res = [3, - 2] \<and> status res = CONVERGED \<and>
     vnorm (vsub [1, 0] (matvec [[3, 4], [4, 6]] (solution res)))
       \<le> 1 / 100000000 + 1 / 100000000 * vnorm [1, 0])"
proof -
  let ?rows = "[[3, 4], [4, 6 :: real]]"
  let ?s = "\<lparr>atol = 1 / 100000000, rtol = 1 / 100000000, max_steps = 2\<rparr>"
  have g: "GMRES (1 / 100000000) (1 / 100000000) 2 = Inr ?s"
    by (simp add: GMRES_def)
  have ms: "int (length ?rows) \<le> 2" and lb: "length [1, 0 :: real] = length ?rows"
    by simp_all
  have x0: "case None :: vector option of None \<Rightarrow> True | Some x \<Rightarrow> length x = length ?rows"
    by simp
  have run: "solve ?s (MatrixLinearOperator ?rows []) [1, 0] None None =
      (2, Inr \<lparr>solution = [3, - 2], converged = True, iterations = 2,
               residual_norm = 0, status = CONVERGED\<rparr>)"
    by (simp add: solve_eval)
  from gmres_converges_within_dimension [OF spd_example g ms lb x0, of "[]"] obtain res where
    res: "solve ?s (MatrixLinearOperator ?rows []) [1, 0] None None = (iterations res, Inr res)"
    and st: "status res = CONVERGED"
    and tol: "vnorm (vsub [1, 0] (matvec ?rows (solution res)))
       \<le> atol ?s + rtol ?s * vnorm [1, 0]"
    by blast
  have "Inr res = snd (solve ?s (MatrixLinearOperator ?rows []) [1, 0] None None)"
    by (simp only: res snd_conv)
  also have "\<dots> = Inr \<lparr>solution = [3, - 2], converged = True, iterations = 2,
               residual_norm = 0, status = CONVERGED\<rparr>"
    by (simp only: run snd_conv)
  finally have req: "res = \<lparr>solution = [3, - 2], converged = True, iterations = 2,
               residual_norm = 0, status = CONVERGED\<rparr>"
    by (simp only: sum.inject)
  have run': "solve ?s (MatrixLinearOperator ?rows []) [1, 0] None None = (2, Inr res)"
    unfolding req by (rule run)
  have sol: "solution res = [3, - 2]"
    unfolding req by simp
  from tol have tol': "vnorm (vsub [1, 0] (matvec ?rows (solution res)))
       \<le> 1 / 100000000 + 1 / 100000000 * vnorm [1, 0]"
    by simp
  from spd_example g ms lb run' sol st tol' show ?thesis
    by blast
qed

end
